theory Spec2Isabelle
  imports Main "HOL-Library.Word"
begin

unbundle bit_operations_syntax

section \<open>Machine words and the lock word (stm\_internal.h)\<close>

text \<open>
  \<open>stm_word_t\<close> is an unsigned integer of the size of a pointer; the development fixes
  the 64-bit case (\<open>sizeof(stm_word_t) = 8\<close>). Pointers to application memory and to
  write-set entries are words of the same width. \<open>unsigned int\<close> is a 32-bit word.
\<close>

type_synonym stm_word_t = "64 word"
type_synonym uint = "32 word"

definition OWNED_BITS :: nat where
  "OWNED_BITS = 1"

definition WRITE_MASK :: stm_word_t where
  "WRITE_MASK = 0x01"

definition OWNED_MASK :: stm_word_t where
  "OWNED_MASK = WRITE_MASK"

definition INCARNATION_BITS :: nat where
  "INCARNATION_BITS = 3"



definition LOCK_BITS :: nat where
  "LOCK_BITS = OWNED_BITS + INCARNATION_BITS"

definition MAX_THREADS :: stm_word_t where
  "MAX_THREADS = 8192"

definition VERSION_MAX :: stm_word_t where
  "VERSION_MAX = drop_bit LOCK_BITS (NOT 0) - MAX_THREADS"

definition LOCK_GET_OWNED :: "stm_word_t \<Rightarrow> stm_word_t" where
  "LOCK_GET_OWNED l = l AND OWNED_MASK"

definition LOCK_GET_WRITE :: "stm_word_t \<Rightarrow> stm_word_t" where
  "LOCK_GET_WRITE l = l AND WRITE_MASK"

definition LOCK_SET_ADDR_WRITE :: "stm_word_t \<Rightarrow> stm_word_t" where
  "LOCK_SET_ADDR_WRITE a = a OR WRITE_MASK"

definition LOCK_GET_ADDR :: "stm_word_t \<Rightarrow> stm_word_t" where
  "LOCK_GET_ADDR l = l AND NOT OWNED_MASK"

definition LOCK_GET_TIMESTAMP :: "stm_word_t \<Rightarrow> stm_word_t" where
  "LOCK_GET_TIMESTAMP l = drop_bit LOCK_BITS l"

definition LOCK_SET_TIMESTAMP :: "stm_word_t \<Rightarrow> stm_word_t" where
  "LOCK_SET_TIMESTAMP t = push_bit LOCK_BITS t"


section \<open>Constants and types declared outside the three source files\<close>

text \<open>
  The abort reasons \<open>STM_ABORT_*\<close>, \<open>STM_PATH_INSTRUMENTED\<close> and the attribute type
  \<open>stm_tx_attr_t\<close> come from \<open>stm.h\<close>, and \<open>CACHELINE_SIZE\<close> (which fixes
  \<open>sizeof(w_entry_t)\<close> through the padding member of the union) from \<open>utils.h\<close>.
  Neither header is among the sources, so the functions below take these values as a
  parameter \<open>K\<close>; every theorem holds for all of them.
\<close>

record build_consts =
  SIZEOF_W_ENTRY :: nat
  STM_PATH_INSTRUMENTED :: uint
  STM_ABORT_NO_RETRY :: uint
  STM_ABORT_RW_CONFLICT :: uint
  STM_ABORT_WW_CONFLICT :: uint
  STM_ABORT_VAL_READ :: uint
  STM_ABORT_VAL_WRITE :: uint
  STM_ABORT_VALIDATE :: uint
  STM_ABORT_IRREVOCABLE :: uint
  STM_ABORT_EXTEND_WS :: uint

text \<open>
  Modelled from the spec: the attributes of \<open>begin(attr)\<close>,
  \<open>{read_only, no_retry, visible_reads:ignored, id}\<close>; the type \<open>stm_tx_attr_t\<close> itself
  is declared in \<open>stm.h\<close>.
\<close>

record stm_tx_attr_t =
  attr_id :: "16 word"
  read_only :: bool
  visible_reads :: bool
  no_retry :: bool

section \<open>Transaction status\<close>

definition TX_IDLE :: stm_word_t where
  "TX_IDLE = 0"

definition TX_ACTIVE :: stm_word_t where
  "TX_ACTIVE = 1"

definition TX_COMMITTED :: stm_word_t where
  "TX_COMMITTED = push_bit 1 1"

definition TX_ABORTED :: stm_word_t where
  "TX_ABORTED = push_bit 1 2"

definition TX_COMMITTING :: stm_word_t where
  "TX_COMMITTING = push_bit 1 1 OR TX_ACTIVE"

definition TX_ABORTING :: stm_word_t where
  "TX_ABORTING = push_bit 1 2 OR TX_ACTIVE"

definition TX_KILLED :: stm_word_t where
  "TX_KILLED = push_bit 1 3 OR TX_ACTIVE"

definition TX_IRREVOCABLE :: stm_word_t where
  "TX_IRREVOCABLE = 0x08 OR TX_ACTIVE"

definition IS_ACTIVE :: "stm_word_t \<Rightarrow> bool" where
  "IS_ACTIVE s = (s AND 0x01 = TX_ACTIVE)"

section \<open>Lock array and clock\<close>

definition LOCK_ARRAY_LOG_SIZE :: nat where
  "LOCK_ARRAY_LOG_SIZE = 20"

definition LOCK_SHIFT_EXTRA :: nat where
  "LOCK_SHIFT_EXTRA = 2"

definition LOCK_ARRAY_SIZE :: nat where
  "LOCK_ARRAY_SIZE = 2 ^ LOCK_ARRAY_LOG_SIZE"

definition LOCK_MASK :: stm_word_t where
  "LOCK_MASK = push_bit LOCK_ARRAY_LOG_SIZE 1 - 1"

definition LOCK_SHIFT :: nat where
  "LOCK_SHIFT = 3 + LOCK_SHIFT_EXTRA"

text \<open>
  A pointer into \<open>_tinystm.locks\<close> is modelled by the index of the lock word, so
  \<open>GET_LOCK(a)\<close>, which is \<open>_tinystm.locks + LOCK_IDX(a)\<close>, is \<open>LOCK_IDX a\<close>.
\<close>

definition LOCK_IDX :: "stm_word_t \<Rightarrow> nat" where
  "LOCK_IDX a = unat (drop_bit LOCK_SHIFT a AND LOCK_MASK)"

definition GET_LOCK :: "stm_word_t \<Rightarrow> nat" where
  "GET_LOCK a = LOCK_IDX a"

section \<open>Read set, write set, descriptor and global state\<close>

record r_entry_t =
  r_version :: stm_word_t
  r_lock :: nat

text \<open>
  \<open>w_next\<close> is the pointer \<open>next\<close> to another write-set entry, kept as the address it
  holds; \<open>NULL\<close> is 0.
\<close>

record w_entry_t =
  w_addr :: stm_word_t
  w_value :: stm_word_t
  w_mask :: stm_word_t
  w_version :: stm_word_t
  w_lock :: nat
  w_next :: stm_word_t

definition NULL :: stm_word_t where
  "NULL = 0"

record cb_entry_t =
  cb_f :: nat
  cb_arg :: stm_word_t

text \<open>
  The descriptor. The members of \<open>r_set\<close> and \<open>w_set\<close> are flattened into it:
  \<open>r_entries\<close> is the array \<open>r_set.entries\<close> points to; \<open>w_entries\<close> is the pointer
  \<open>w_set.entries\<close> itself (lock words store addresses inside that array) and
  \<open>w_cells\<close> the array it points to, entry \<open>i\<close> living at address
  \<open>w_entries + i * sizeof(w_entry_t)\<close>. \<open>tx_irrevocable\<close> is the member
  \<open>tx->irrevocable\<close> that \<open>stm_wbetl.h\<close> reads; the structure in \<open>stm_internal.h\<close>
  does not declare it and nothing in the sources assigns it.
\<close>

record stm_tx_t =
  tx_attr :: stm_tx_attr_t
  tx_status :: stm_word_t
  tx_start :: stm_word_t
  tx_end :: stm_word_t
  r_entries :: "r_entry_t list"
  r_nb_entries :: uint
  r_size :: uint
  w_entries :: stm_word_t
  w_cells :: "w_entry_t list"
  w_nb_entries :: uint
  w_size :: uint
  w_has_writes :: uint
  tx_nesting :: uint
  tx_irrevocable :: stm_word_t

text \<open>
  What one thread sees besides its descriptor: the members of \<open>_tinystm\<close> the modelled
  functions use (\<open>g_irrevocable\<close> is \<open>_tinystm.irrevocable\<close>, read by
  \<open>stm_wbetl_commit\<close> and likewise undeclared), the application memory as a map from
  word addresses to words, the allocator behind \<open>xrealloc\<close> as the function giving the
  address of the resized block, and a history \<open>trace\<close> of the atomic stores and callback
  invocations performed so far, oldest first. A registered callback is an opaque
  identifier with its argument; invoking it is recorded and has no other effect on this
  state.
\<close>

datatype event =
  Mem_store stm_word_t stm_word_t
  | Lock_store nat stm_word_t
  | Callback cb_entry_t

record global_t =
  locks :: "nat \<Rightarrow> stm_word_t"
  CLOCK :: stm_word_t
  g_irrevocable :: stm_word_t
  precommit_cb :: "cb_entry_t list"
  commit_cb :: "cb_entry_t list"
  abort_cb :: "cb_entry_t list"
  quiesce :: stm_word_t
  threads_nb :: stm_word_t
  memory :: "stm_word_t \<Rightarrow> stm_word_t"
  xrealloc :: "stm_word_t \<Rightarrow> nat \<Rightarrow> stm_word_t"
  trace :: "event list"

text \<open>
  How a call ends: it returns a value, it leaves through \<open>LONGJMP(tx->env, reason)\<close>, an
  \<open>assert\<close> fails, or it dereferences a write-set pointer that is not the address of a
  cell of the write-set array. Functions that contain a loop which can run forever take a
  fuel argument and give \<open>None\<close> when it is used up.
\<close>

datatype 'a outcome =
  Return 'a stm_tx_t global_t
  | Longjmp uint stm_tx_t global_t
  | Assert_fail
  | Wild_pointer

fun then_do ::
  "'a outcome option \<Rightarrow> ('a \<Rightarrow> stm_tx_t \<Rightarrow> global_t \<Rightarrow> 'b outcome option) \<Rightarrow> 'b outcome option"
where
  "then_do None k = None"
| "then_do (Some (Return v tx g)) k = k v tx g"
| "then_do (Some (Longjmp r tx g)) k = Some (Longjmp r tx g)"
| "then_do (Some Assert_fail) k = Some Assert_fail"
| "then_do (Some Wild_pointer) k = Some Wild_pointer"

subsection \<open>Atomic operations (atomic.h), one thread running\<close>

definition ATOMIC_STORE :: "stm_word_t \<Rightarrow> stm_word_t \<Rightarrow> global_t \<Rightarrow> global_t" where
  "ATOMIC_STORE a v g = g\<lparr>memory := (memory g)(a := v), trace := trace g @ [Mem_store a v]\<rparr>"

definition ATOMIC_STORE_LOCK :: "nat \<Rightarrow> stm_word_t \<Rightarrow> global_t \<Rightarrow> global_t" where
  "ATOMIC_STORE_LOCK p v g = g\<lparr>locks := (locks g)(p := v), trace := trace g @ [Lock_store p v]\<rparr>"

definition ATOMIC_CAS_FULL ::
  "nat \<Rightarrow> stm_word_t \<Rightarrow> stm_word_t \<Rightarrow> global_t \<Rightarrow> bool \<times> global_t" where
  "ATOMIC_CAS_FULL p old new g =
     (if locks g p = old then (True, ATOMIC_STORE_LOCK p new g) else (False, g))"

fun run_callbacks :: "cb_entry_t list \<Rightarrow> global_t \<Rightarrow> global_t" where
  "run_callbacks [] g = g"
| "run_callbacks (cb # cbs) g = run_callbacks cbs (g\<lparr>trace := trace g @ [Callback cb]\<rparr>)"

subsection \<open>Pointers to write-set entries\<close>

definition entry_ptr :: "build_consts \<Rightarrow> stm_tx_t \<Rightarrow> nat \<Rightarrow> stm_word_t" where
  "entry_ptr K tx i = w_entries tx + word_of_nat (i * SIZEOF_W_ENTRY K)"

text \<open>
  The index of the cell a pointer designates, when it is the address of a cell of the
  array.
\<close>

definition entry_idx :: "build_consts \<Rightarrow> stm_tx_t \<Rightarrow> stm_word_t \<Rightarrow> nat option" where
  "entry_idx K tx p =
     (let off = unat (p - w_entries tx) in
      if w_entries tx \<le> p \<and> 0 < SIZEOF_W_ENTRY K \<and> off mod SIZEOF_W_ENTRY K = 0 \<and>
         off div SIZEOF_W_ENTRY K < length (w_cells tx)
      then Some (off div SIZEOF_W_ENTRY K) else None)"

text \<open>
  The test \<open>tx->w_set.entries <= w && w < tx->w_set.entries + tx->w_set.nb_entries\<close>.
\<close>

definition in_w_set :: "build_consts \<Rightarrow> stm_tx_t \<Rightarrow> stm_word_t \<Rightarrow> bool" where
  "in_w_set K tx w =
     (w_entries tx \<le> w \<and> w < entry_ptr K tx (unat (w_nb_entries tx)))"

text \<open>
  The number of iterations of \<open>for (i = nb_entries; i > 0; i--)\<close>, where \<open>i\<close> is an
  \<open>int\<close> and \<open>nb_entries\<close> an \<open>unsigned int\<close>.
\<close>

definition loop_count :: "uint \<Rightarrow> nat" where
  "loop_count nb = nat (sint nb)"


section \<open>Validation and snapshot extension (stm\_wbetl.h)\<close>

text \<open>
  The body of the loop of \<open>stm_wbetl_validate\<close> over the read entries still to visit:
  \<open>False\<close> is the early \<open>return 0\<close>.
\<close>

fun validate_loop :: "build_consts \<Rightarrow> stm_tx_t \<Rightarrow> global_t \<Rightarrow> r_entry_t list \<Rightarrow> bool" where
  "validate_loop K tx g [] = True"
| "validate_loop K tx g (r # rs) =
     (let l = locks g (r_lock r) in
      if LOCK_GET_OWNED l \<noteq> 0 then
        (let w = LOCK_GET_ADDR l in
         if \<not> in_w_set K tx w then False
         else validate_loop K tx g rs)
      else
        if LOCK_GET_TIMESTAMP l \<noteq> r_version r then False
        else validate_loop K tx g rs)"

definition stm_wbetl_validate :: "build_consts \<Rightarrow> stm_tx_t \<Rightarrow> global_t \<Rightarrow> int" where
  "stm_wbetl_validate K tx g =
     (if validate_loop K tx g (take (loop_count (r_nb_entries tx)) (r_entries tx)) then 1 else 0)"

definition stm_wbetl_extend :: "build_consts \<Rightarrow> stm_tx_t \<Rightarrow> global_t \<Rightarrow> int \<times> stm_tx_t" where
  "stm_wbetl_extend K tx g =
     (let now = CLOCK g in
      if stm_wbetl_validate K tx g \<noteq> 0 then (1, tx\<lparr>tx_end := now\<rparr>)
      else (0, tx))"

text \<open>\<open>stm_has_read\<close> returns the first matching read entry, or \<open>None\<close> for \<open>NULL\<close>.\<close>

fun has_read_loop :: "nat \<Rightarrow> r_entry_t list \<Rightarrow> r_entry_t option" where
  "has_read_loop lock [] = None"
| "has_read_loop lock (r # rs) = (if r_lock r = lock then Some r else has_read_loop lock rs)"

definition stm_has_read :: "stm_tx_t \<Rightarrow> nat \<Rightarrow> r_entry_t option" where
  "stm_has_read tx lock = has_read_loop lock (take (loop_count (r_nb_entries tx)) (r_entries tx))"

section \<open>Rollback\<close>

fun drop_locks_loop :: "w_entry_t list \<Rightarrow> global_t \<Rightarrow> global_t" where
  "drop_locks_loop [] g = g"
| "drop_locks_loop (w # ws) g =
     drop_locks_loop ws
       (if w_next w = NULL then ATOMIC_STORE_LOCK (w_lock w) (LOCK_SET_TIMESTAMP (w_version w)) g
        else g)"

definition stm_wbetl_rollback :: "stm_tx_t \<Rightarrow> global_t \<Rightarrow> global_t option" where
  "stm_wbetl_rollback tx g =
     (if \<not> IS_ACTIVE (tx_status tx) then None
      else Some (drop_locks_loop (take (loop_count (w_nb_entries tx)) (w_cells tx)) g))"

text \<open>
  \<open>stm_allocate_ws_entries(tx, 1)\<close>: the size doubles in \<open>unsigned int\<close>, \<open>xrealloc\<close>
  keeps the cells that fit and the new ones hold no defined content (the model puts
  zeroes there; every path writes all members of a cell before reading it). \<open>None\<close> is
  the failure of the alignment assertion.
\<close>

definition zero_entry :: w_entry_t where
  "zero_entry = \<lparr>w_addr = 0, w_value = 0, w_mask = 0, w_version = 0, w_lock = 0, w_next = 0\<rparr>"

definition resize_cells :: "nat \<Rightarrow> w_entry_t list \<Rightarrow> w_entry_t list" where
  "resize_cells n cs = take n cs @ replicate (n - length cs) zero_entry"

definition stm_allocate_ws_entries_extend ::
  "build_consts \<Rightarrow> stm_tx_t \<Rightarrow> global_t \<Rightarrow> stm_tx_t option" where
  "stm_allocate_ws_entries_extend K tx g =
     (let size' = w_size tx * 2;
          p = xrealloc g (w_entries tx) (unat size' * SIZEOF_W_ENTRY K);
          tx' = tx\<lparr>w_size := size', w_entries := p,
                   w_cells := resize_cells (unat size') (w_cells tx)\<rparr>
      in if p AND OWNED_MASK = 0 then Some tx' else None)"

definition rollover_clock :: "global_t \<Rightarrow> global_t" where
  "rollover_clock g =
     g\<lparr>CLOCK := 0, locks := (\<lambda>i. if i < LOCK_ARRAY_SIZE then 0 else locks g i)\<rparr>"

text \<open>
  The loop \<open>while (_tinystm.quiesce)\<close> of \<open>stm_quiesce_barrier\<close>, called with
  \<open>rollover_clock\<close>. With one thread running, \<open>pthread_cond_wait\<close> gives control back
  with the state as it was.
\<close>

fun quiesce_barrier_loop :: "nat \<Rightarrow> global_t \<Rightarrow> global_t option" where
  "quiesce_barrier_loop 0 g = None"
| "quiesce_barrier_loop (Suc n) g =
     (if quiesce g \<noteq> 0 then
        (if threads_nb g = 0 then quiesce_barrier_loop n ((rollover_clock g)\<lparr>quiesce := 0\<rparr>)
         else quiesce_barrier_loop n g)
      else Some g)"

definition stm_quiesce_barrier :: "nat \<Rightarrow> stm_tx_t \<Rightarrow> global_t \<Rightarrow> unit outcome option" where
  "stm_quiesce_barrier n tx g =
     (if IS_ACTIVE (tx_status tx) then Some Assert_fail
      else
        let g1 = g\<lparr>threads_nb := threads_nb g - 1\<rparr>;
            g2 = (if quiesce g1 = 0 then g1\<lparr>quiesce := 1\<rparr> else g1)
        in case quiesce_barrier_loop n g2 of
             None \<Rightarrow> None
           | Some g3 \<Rightarrow> Some (Return () tx (g3\<lparr>threads_nb := threads_nb g3 + 1\<rparr>)))"

text \<open>The loop \<open>while (ATOMIC_LOAD_ACQ(&_tinystm.quiesce) == 2)\<close> of \<open>stm_check_quiesce\<close>.\<close>

fun check_quiesce_spin :: "nat \<Rightarrow> global_t \<Rightarrow> unit option" where
  "check_quiesce_spin 0 g = None"
| "check_quiesce_spin (Suc n) g = (if quiesce g = 2 then check_quiesce_spin n g else Some ())"

definition stm_check_quiesce :: "nat \<Rightarrow> stm_tx_t \<Rightarrow> global_t \<Rightarrow> int outcome option" where
  "stm_check_quiesce n tx g =
     (if \<not> IS_ACTIVE (tx_status tx) then Some Assert_fail
      else if quiesce g = 2 then
        (let s = tx_status tx; tx1 = tx\<lparr>tx_status := TX_IDLE\<rparr> in
         case check_quiesce_spin n g of
           None \<Rightarrow> None
         | Some _ \<Rightarrow> Some (Return 1 (tx1\<lparr>tx_status := s\<rparr>) g))
      else Some (Return 0 tx g))"

text \<open>\<open>int_stm_prepare\<close> from the label \<open>start\<close> on.\<close>

fun prepare_start :: "nat \<Rightarrow> stm_tx_t \<Rightarrow> global_t \<Rightarrow> unit outcome option" where
  "prepare_start 0 tx g = None"
| "prepare_start (Suc n) tx g =
     (let tx1 = tx\<lparr>tx_start := CLOCK g, tx_end := CLOCK g\<rparr> in
      if tx_start tx1 \<ge> VERSION_MAX then
        then_do (stm_quiesce_barrier n tx1 g) (\<lambda>_ tx2 g2. prepare_start n tx2 g2)
      else
        (let tx2 = tx1\<lparr>tx_status := TX_ACTIVE\<rparr> in
         then_do (stm_check_quiesce n tx2 g) (\<lambda>_ tx3 g3. Some (Return () tx3 g3))))"

definition int_stm_prepare :: "nat \<Rightarrow> stm_tx_t \<Rightarrow> global_t \<Rightarrow> unit outcome option" where
  "int_stm_prepare n tx g =
     prepare_start n (tx\<lparr>w_has_writes := 0, w_nb_entries := 0, r_nb_entries := 0\<rparr>) g"

definition stm_rollback ::
  "nat \<Rightarrow> build_consts \<Rightarrow> stm_tx_t \<Rightarrow> global_t \<Rightarrow> uint \<Rightarrow> unit outcome option" where
  "stm_rollback n K tx g reason =
     (if \<not> IS_ACTIVE (tx_status tx) then Some Assert_fail
      else case stm_wbetl_rollback tx g of
        None \<Rightarrow> Some Assert_fail
      | Some g1 \<Rightarrow>
          (let tx1 = tx\<lparr>tx_status := TX_ABORTED\<rparr> in
           (case (if reason = STM_ABORT_EXTEND_WS K then stm_allocate_ws_entries_extend K tx1 g1
                  else Some tx1) of
              None \<Rightarrow> Some Assert_fail
            | Some tx2 \<Rightarrow>
                (let tx3 = tx2\<lparr>tx_nesting := 1\<rparr>;
                     g2 = run_callbacks (abort_cb g1) g1
                 in if no_retry (tx_attr tx3) \<or>
                       reason AND STM_ABORT_NO_RETRY K = STM_ABORT_NO_RETRY K
                    then Some (Return () (tx3\<lparr>tx_nesting := 0\<rparr>) g2)
                    else then_do (int_stm_prepare n tx3 g2)
                           (\<lambda>_ tx4 g3.
                              Some (Longjmp (reason OR STM_PATH_INSTRUMENTED K) tx4 g3))))))"


section \<open>Transactional load\<close>

text \<open>
  The loop \<open>while (1)\<close> of \<open>stm_wbetl_read_invisible\<close> that walks the bucket from the
  entry the lock word points to, followed by \<open>return value\<close>.
\<close>

fun read_bucket_loop ::
  "nat \<Rightarrow> build_consts \<Rightarrow> stm_tx_t \<Rightarrow> global_t \<Rightarrow> stm_word_t \<Rightarrow> stm_word_t \<Rightarrow>
   stm_word_t outcome option"
where
  "read_bucket_loop 0 K tx g addr w = None"
| "read_bucket_loop (Suc n) K tx g addr w =
     (case entry_idx K tx w of
        None \<Rightarrow> Some Wild_pointer
      | Some i \<Rightarrow>
          let e = w_cells tx ! i in
          if addr = w_addr e then
            Some (Return (if w_mask e = 0 then memory g addr else w_value e) tx g)
          else if w_next e = NULL then
            Some (Return (memory g addr) tx g)
          else read_bucket_loop n K tx g addr (w_next e))"

definition zero_r_entry :: r_entry_t where
  "zero_r_entry = \<lparr>r_version = 0, r_lock = 0\<rparr>"

text \<open>\<open>stm_allocate_rs_entries(tx, 1)\<close>.\<close>

definition stm_allocate_rs_entries_extend :: "stm_tx_t \<Rightarrow> stm_tx_t" where
  "stm_allocate_rs_entries_extend tx =
     (let size' = r_size tx * 2 in
      tx\<lparr>r_size := size',
         r_entries := take (unat size') (r_entries tx) @
                      replicate (unat size' - length (r_entries tx)) zero_r_entry\<rparr>)"

text \<open>
  The end of \<open>stm_wbetl_read_invisible\<close>, from the comment "We have a good version" to
  \<open>return value\<close>.
\<close>

definition add_to_read_set ::
  "stm_tx_t \<Rightarrow> global_t \<Rightarrow> nat \<Rightarrow> stm_word_t \<Rightarrow> stm_word_t \<Rightarrow> stm_word_t outcome option"
where
  "add_to_read_set tx g lock version value =
     (if \<not> read_only (tx_attr tx) then
        (let tx1 = (if r_nb_entries tx = r_size tx then stm_allocate_rs_entries_extend tx
                    else tx);
             i = unat (r_nb_entries tx1)
         in if i < length (r_entries tx1) then
              Some (Return value
                (tx1\<lparr>r_nb_entries := r_nb_entries tx1 + 1,
                      r_entries := (r_entries tx1)[i := \<lparr>r_version = version, r_lock = lock\<rparr>]\<rparr>)
                g)
            else Some Wild_pointer)
      else Some (Return value tx g))"

text \<open>
  One pass through \<open>stm_wbetl_read_invisible\<close> from the label \<open>restart_no_load\<close>, with
  the lock word \<open>l\<close> already loaded, up to a \<open>return\<close> or a \<open>goto\<close>. \<open>goto restart\<close>
  loads the lock word again.
\<close>

datatype read_pass_end =
  Finished "stm_word_t outcome option"
  | Goto_restart_no_load stm_tx_t stm_word_t

definition read_pass ::
  "nat \<Rightarrow> build_consts \<Rightarrow> stm_tx_t \<Rightarrow> global_t \<Rightarrow> stm_word_t \<Rightarrow> nat \<Rightarrow> stm_word_t \<Rightarrow>
   read_pass_end"
where
  "read_pass n K tx g addr lock l =
     (if LOCK_GET_WRITE l \<noteq> 0 then
        (let w = LOCK_GET_ADDR l in
         if in_w_set K tx w then Finished (read_bucket_loop n K tx g addr w)
         else if tx_irrevocable tx \<noteq> 0 then Goto_restart_no_load tx (locks g lock)
         else
           Finished (then_do (stm_rollback n K tx g (STM_ABORT_RW_CONFLICT K))
             (\<lambda>_ tx' g'. Some (Return 0 tx' g'))))
      else
        (let value = memory g addr;
             l2 = locks g lock
         in if l \<noteq> l2 then Goto_restart_no_load tx l2
            else if tx_irrevocable tx \<noteq> 0 then Finished (Some (Return value tx g))
            else
              (let version = LOCK_GET_TIMESTAMP l in
               if version > tx_end tx then
                 (if read_only (tx_attr tx) \<or> fst (stm_wbetl_extend K tx g) = 0 then
                    Finished (then_do (stm_rollback n K tx g (STM_ABORT_VAL_READ K))
                      (\<lambda>_ tx' g'. Some (Return 0 tx' g')))
                  else
                    (let tx1 = snd (stm_wbetl_extend K tx g);
                         l2 = locks g lock
                     in if l \<noteq> l2 then Goto_restart_no_load tx1 l2
                        else Finished (add_to_read_set tx1 g lock version value)))
               else Finished (add_to_read_set tx g lock version value))))"

fun read_restart_no_load ::
  "nat \<Rightarrow> build_consts \<Rightarrow> stm_tx_t \<Rightarrow> global_t \<Rightarrow> stm_word_t \<Rightarrow> nat \<Rightarrow> stm_word_t \<Rightarrow>
   stm_word_t outcome option"
where
  "read_restart_no_load 0 K tx g addr lock l = None"
| "read_restart_no_load (Suc n) K tx g addr lock l =
     (case read_pass n K tx g addr lock l of
        Finished r \<Rightarrow> r
      | Goto_restart_no_load tx' l' \<Rightarrow> read_restart_no_load n K tx' g addr lock l')"

definition stm_wbetl_read_invisible ::
  "nat \<Rightarrow> build_consts \<Rightarrow> stm_tx_t \<Rightarrow> global_t \<Rightarrow> stm_word_t \<Rightarrow> stm_word_t outcome option"
where
  "stm_wbetl_read_invisible n K tx g addr =
     (if \<not> IS_ACTIVE (tx_status tx) then Some Assert_fail
      else
        let lock = GET_LOCK addr in
        read_restart_no_load n K tx g addr lock (locks g lock))"

definition int_stm_load ::
  "nat \<Rightarrow> build_consts \<Rightarrow> stm_tx_t \<Rightarrow> global_t \<Rightarrow> stm_word_t \<Rightarrow> stm_word_t outcome option"
where
  "int_stm_load n K tx g addr = stm_wbetl_read_invisible n K tx g addr"

section \<open>Transactional store\<close>

text \<open>
  The loop \<open>while (1)\<close> of \<open>stm_wbetl_write\<close>: it stops at the entry for \<open>addr\<close>, or at
  the last entry of the bucket.
\<close>

datatype bucket_hit = Same_addr stm_word_t | Last_entry stm_word_t | Bad_pointer

fun write_bucket_loop ::
  "nat \<Rightarrow> build_consts \<Rightarrow> stm_tx_t \<Rightarrow> stm_word_t \<Rightarrow> stm_word_t \<Rightarrow> bucket_hit option"
where
  "write_bucket_loop 0 K tx addr prev = None"
| "write_bucket_loop (Suc n) K tx addr prev =
     (case entry_idx K tx prev of
        None \<Rightarrow> Some Bad_pointer
      | Some i \<Rightarrow>
          let e = w_cells tx ! i in
          if addr = w_addr e then Some (Same_addr prev)
          else if w_next e = NULL then Some (Last_entry prev)
          else write_bucket_loop n K tx addr (w_next e))"

text \<open>The body of \<open>if (addr == prev->addr)\<close>: the store merges into the entry.\<close>

definition merge_into_entry ::
  "build_consts \<Rightarrow> stm_tx_t \<Rightarrow> global_t \<Rightarrow> stm_word_t \<Rightarrow> stm_word_t \<Rightarrow> stm_word_t \<Rightarrow>
   stm_word_t \<Rightarrow> stm_word_t outcome option"
where
  "merge_into_entry K tx g addr value msk prev =
     (case entry_idx K tx prev of
        None \<Rightarrow> Some Wild_pointer
      | Some i \<Rightarrow>
          let e = w_cells tx ! i;
              e1 = (if msk \<noteq> NOT 0 \<and> w_mask e = 0 then e\<lparr>w_value := memory g addr\<rparr> else e);
              value' = (if msk \<noteq> NOT 0 then (w_value e1 AND NOT msk) OR (value AND msk)
                        else value);
              e2 = e1\<lparr>w_value := value', w_mask := w_mask e1 OR msk\<rparr>
          in Some (Return prev (tx\<lparr>w_cells := (w_cells tx)[i := e2]\<rparr>) g))"

text \<open>
  From the label \<open>do_write\<close> to the end: \<open>w\<close> is \<open>&tx->w_set.entries[nb_entries]\<close> and
  \<open>prev\<close> the last entry of the bucket, or \<open>NULL\<close>. The member \<open>value\<close> is set to 0 for
  an empty mask, as the code does when \<open>NDEBUG\<close> is not defined.
\<close>

definition do_write ::
  "build_consts \<Rightarrow> stm_tx_t \<Rightarrow> global_t \<Rightarrow> stm_word_t \<Rightarrow> stm_word_t \<Rightarrow> stm_word_t \<Rightarrow> nat \<Rightarrow>
   stm_word_t \<Rightarrow> stm_word_t \<Rightarrow> stm_word_t \<Rightarrow> stm_word_t outcome option"
where
  "do_write K tx g addr value msk lock version w prev =
     (case entry_idx K tx w of
        None \<Rightarrow> Some Wild_pointer
      | Some i \<Rightarrow>
          (let value' = (if msk = 0 then 0
                         else if msk \<noteq> NOT 0 then (memory g addr AND NOT msk) OR (value AND msk)
                         else value);
               e = \<lparr>w_addr = addr, w_value = value', w_mask = msk, w_version = version,
                    w_lock = lock, w_next = NULL\<rparr>;
               tx1 = tx\<lparr>w_cells := (w_cells tx)[i := e]\<rparr>
           in (case (if prev \<noteq> NULL then
                       (case entry_idx K tx1 prev of
                          None \<Rightarrow> None
                        | Some j \<Rightarrow>
                            Some (tx1\<lparr>w_cells :=
                              (w_cells tx1)[j := (w_cells tx1 ! j)\<lparr>w_next := w\<rparr>]\<rparr>))
                     else Some tx1) of
                 None \<Rightarrow> Some Wild_pointer
               | Some tx2 \<Rightarrow>
                   Some (Return w
                     (tx2\<lparr>w_nb_entries := w_nb_entries tx2 + 1,
                           w_has_writes := w_has_writes tx2 + 1\<rparr>) g))))"

text \<open>
  \<open>if (tx->w_set.nb_entries == tx->w_set.size) stm_rollback(tx, STM_ABORT_EXTEND_WS)\<close>;
  the code goes on when \<open>stm_rollback\<close> returns.
\<close>

definition extend_ws_if_full ::
  "nat \<Rightarrow> build_consts \<Rightarrow> stm_tx_t \<Rightarrow> global_t \<Rightarrow> unit outcome option" where
  "extend_ws_if_full n K tx g =
     (if w_nb_entries tx = w_size tx then stm_rollback n K tx g (STM_ABORT_EXTEND_WS K)
      else Some (Return () tx g))"

fun stm_wbetl_write ::
  "nat \<Rightarrow> build_consts \<Rightarrow> stm_tx_t \<Rightarrow> global_t \<Rightarrow> stm_word_t \<Rightarrow> stm_word_t \<Rightarrow> stm_word_t \<Rightarrow>
   stm_word_t outcome option"
where
  "stm_wbetl_write 0 K tx g addr value msk = None"
| "stm_wbetl_write (Suc n) K tx g addr value msk =
     (let lock = GET_LOCK addr;
          l = locks g lock
      in
      if LOCK_GET_OWNED l \<noteq> 0 then
        (let w = LOCK_GET_ADDR l in
         if in_w_set K tx w then
           (if msk = 0 then Some (Return w tx g)
            else
              case write_bucket_loop n K tx addr w of
                None \<Rightarrow> None
              | Some Bad_pointer \<Rightarrow> Some Wild_pointer
              | Some (Same_addr prev) \<Rightarrow> merge_into_entry K tx g addr value msk prev
              | Some (Last_entry prev) \<Rightarrow>
                  (case entry_idx K tx prev of
                     None \<Rightarrow> Some Wild_pointer
                   | Some j \<Rightarrow>
                       let version = w_version (w_cells tx ! j) in
                       then_do (extend_ws_if_full n K tx g)
                         (\<lambda>_ tx1 g1.
                            do_write K tx1 g1 addr value msk lock version
                              (entry_ptr K tx1 (unat (w_nb_entries tx1))) prev)))
         else if tx_irrevocable tx \<noteq> 0 then stm_wbetl_write n K tx g addr value msk
         else
           then_do (stm_rollback n K tx g (STM_ABORT_WW_CONFLICT K))
             (\<lambda>_ tx' g'. Some (Return NULL tx' g')))
      else
        (let version = LOCK_GET_TIMESTAMP l in
         if tx_irrevocable tx = 0 \<and> version > tx_end tx \<and> stm_has_read tx lock \<noteq> None then
           then_do (stm_rollback n K tx g (STM_ABORT_VAL_WRITE K))
             (\<lambda>_ tx' g'. Some (Return NULL tx' g'))
         else
           then_do (extend_ws_if_full n K tx g)
             (\<lambda>_ tx1 g1.
                let w = entry_ptr K tx1 (unat (w_nb_entries tx1)) in
                case ATOMIC_CAS_FULL lock l (LOCK_SET_ADDR_WRITE w) g1 of
                  (False, g2) \<Rightarrow> stm_wbetl_write n K tx1 g2 addr value msk
                | (True, g2) \<Rightarrow> do_write K tx1 g2 addr value msk lock version w NULL)))"

definition stm_write ::
  "nat \<Rightarrow> build_consts \<Rightarrow> stm_tx_t \<Rightarrow> global_t \<Rightarrow> stm_word_t \<Rightarrow> stm_word_t \<Rightarrow> stm_word_t \<Rightarrow>
   stm_word_t outcome option"
where
  "stm_write n K tx g addr value msk =
     (if \<not> IS_ACTIVE (tx_status tx) then Some Assert_fail
      else stm_wbetl_write n K tx g addr value msk)"

definition int_stm_store ::
  "nat \<Rightarrow> build_consts \<Rightarrow> stm_tx_t \<Rightarrow> global_t \<Rightarrow> stm_word_t \<Rightarrow> stm_word_t \<Rightarrow>
   stm_word_t outcome option"
where
  "int_stm_store n K tx g addr value = stm_write n K tx g addr value (NOT 0)"

definition int_stm_store2 ::
  "nat \<Rightarrow> build_consts \<Rightarrow> stm_tx_t \<Rightarrow> global_t \<Rightarrow> stm_word_t \<Rightarrow> stm_word_t \<Rightarrow> stm_word_t \<Rightarrow>
   stm_word_t outcome option"
where
  "int_stm_store2 n K tx g addr value msk = stm_write n K tx g addr value msk"

section \<open>Commit\<close>

fun commit_loop :: "stm_word_t \<Rightarrow> w_entry_t list \<Rightarrow> global_t \<Rightarrow> global_t" where
  "commit_loop t [] g = g"
| "commit_loop t (w # ws) g =
     (let g1 = (if w_mask w \<noteq> 0 then ATOMIC_STORE (w_addr w) (w_value w) g else g);
          g2 = (if w_next w = NULL then ATOMIC_STORE_LOCK (w_lock w) (LOCK_SET_TIMESTAMP t) g1
                else g1)
      in commit_loop t ws g2)"

text \<open>
  \<open>stm_wbetl_commit\<close>, with \<open>IRREVOCABLE_IMPROVED\<close> not defined. \<open>FETCH_INC_CLOCK\<close>
  returns the clock and increments it.
\<close>

definition stm_wbetl_commit ::
  "nat \<Rightarrow> build_consts \<Rightarrow> stm_tx_t \<Rightarrow> global_t \<Rightarrow> int outcome option" where
  "stm_wbetl_commit n K tx g =
     (if tx_irrevocable tx = 0 \<and> g_irrevocable g \<noteq> 0 then
        then_do (stm_rollback n K tx g (STM_ABORT_IRREVOCABLE K))
          (\<lambda>_ tx' g'. Some (Return 0 tx' g'))
      else
        (let t = CLOCK g + 1;
             g1 = g\<lparr>CLOCK := CLOCK g + 1\<rparr>
         in
         if tx_irrevocable tx = 0 \<and> tx_start tx \<noteq> t - 1 \<and> stm_wbetl_validate K tx g1 = 0 then
           then_do (stm_rollback n K tx g1 (STM_ABORT_VALIDATE K))
             (\<lambda>_ tx' g'. Some (Return 0 tx' g'))
         else
           Some (Return 1 tx
             (commit_loop t (take (loop_count (w_nb_entries tx)) (w_cells tx)) g1))))"

text \<open>\<open>int_stm_commit\<close>; the value \<open>stm_wbetl_commit\<close> returns is not looked at.\<close>

definition int_stm_commit ::
  "nat \<Rightarrow> build_consts \<Rightarrow> stm_tx_t \<Rightarrow> global_t \<Rightarrow> int outcome option" where
  "int_stm_commit n K tx g =
     (let tx1 = tx\<lparr>tx_nesting := tx_nesting tx - 1\<rparr> in
      if tx_nesting tx1 > 0 then Some (Return 1 tx1 g)
      else
        (let g1 = run_callbacks (precommit_cb g) g in
         if \<not> IS_ACTIVE (tx_status tx1) then Some Assert_fail
         else
           then_do (if w_nb_entries tx1 = 0 then Some (Return 1 tx1 g1)
                    else stm_wbetl_commit n K tx1 g1)
             (\<lambda>_ tx2 g2.
                Some (Return 1 (tx2\<lparr>tx_status := TX_COMMITTED\<rparr>)
                  (run_callbacks (commit_cb g2) g2)))))"

definition int_stm_active :: "stm_tx_t \<Rightarrow> int" where
  "int_stm_active tx = (if IS_ACTIVE (tx_status tx) then 1 else 0)"

definition int_stm_aborted :: "stm_tx_t \<Rightarrow> int" where
  "int_stm_aborted tx = (if tx_status tx = TX_ABORTED then 1 else 0)"

section \<open>Notions used in the statements\<close>

text \<open>
  The write-set array as \<open>stm_allocate_ws_entries\<close> and \<open>xmalloc_aligned\<close> leave it: entries
  of a positive even size, a base pointer that is not null and has the owned bit clear,
  \<open>size\<close> cells of which \<open>nb_entries\<close> are in use, the whole array within the address
  space.
\<close>

definition layout_ok :: "build_consts \<Rightarrow> stm_tx_t \<Rightarrow> bool" where
  "layout_ok K tx \<longleftrightarrow>
     0 < SIZEOF_W_ENTRY K \<and> even (SIZEOF_W_ENTRY K) \<and>
     w_entries tx \<noteq> NULL \<and> w_entries tx AND OWNED_MASK = 0 \<and>
     length (w_cells tx) = unat (w_size tx) \<and>
     w_nb_entries tx \<le> w_size tx \<and>
     unat (w_entries tx) + unat (w_size tx) * SIZEOF_W_ENTRY K < 2 ^ 64"

text \<open>
  The entries in use, in insertion order: \<open>w_set.entries[0 .. nb_entries - 1]\<close> and
  \<open>r_set.entries[0 .. nb_entries - 1]\<close>.
\<close>

definition write_set :: "stm_tx_t \<Rightarrow> w_entry_t list" where
  "write_set tx = take (unat (w_nb_entries tx)) (w_cells tx)"

definition read_set :: "stm_tx_t \<Rightarrow> r_entry_t list" where
  "read_set tx = take (unat (r_nb_entries tx)) (r_entries tx)"

text \<open>
  What \<open>drop_locks_loop\<close> does, said without the loop: the lock stores it performs and
  the lock array it leaves.
\<close>

definition release_events :: "w_entry_t list \<Rightarrow> event list" where
  "release_events ws =
     map (\<lambda>w. Lock_store (w_lock w) (LOCK_SET_TIMESTAMP (w_version w)))
       (filter (\<lambda>w. w_next w = NULL) ws)"

definition released_locks :: "w_entry_t list \<Rightarrow> (nat \<Rightarrow> stm_word_t) \<Rightarrow> nat \<Rightarrow> stm_word_t" where
  "released_locks ws L =
     fold (\<lambda>w L. if w_next w = NULL then L(w_lock w := LOCK_SET_TIMESTAMP (w_version w)) else L) ws L"



text \<open>
  The loops over the read set and the write set count with a C \<open>int\<close>; a count above
  \<open>INT_MAX\<close> is read as negative and the loop body never runs.
\<close>

definition INT_MAX :: uint where "INT_MAX = 0x7FFFFFFF"


text \<open>
  The descriptor after the rollback has set the status and, for the reason
  \<open>STM_ABORT_EXTEND_WS\<close>, has doubled the write-set array.
\<close>

definition abort_descriptor :: "build_consts \<Rightarrow> stm_tx_t \<Rightarrow> global_t \<Rightarrow> uint \<Rightarrow> stm_tx_t" where
  "abort_descriptor K tx g reason =
     (if reason = STM_ABORT_EXTEND_WS K then
        tx\<lparr>tx_status := TX_ABORTED, w_size := w_size tx * 2,
           w_entries := xrealloc g (w_entries tx) (unat (w_size tx * 2) * SIZEOF_W_ENTRY K),
           w_cells := resize_cells (unat (w_size tx * 2)) (w_cells tx)\<rparr>
      else tx\<lparr>tx_status := TX_ABORTED\<rparr>)"


text \<open>
  Selecting the stores to memory, and the stores to one lock, from a trace.
\<close>

fun is_mem_store :: "event \<Rightarrow> bool" where
  "is_mem_store (Mem_store a v) = True"
| "is_mem_store (Lock_store k v) = False"
| "is_mem_store (Callback cb) = False"

fun is_lock_store :: "nat \<Rightarrow> event \<Rightarrow> bool" where
  "is_lock_store k (Mem_store a v) = False"
| "is_lock_store k (Lock_store k' v) = (k = k')"
| "is_lock_store k (Callback cb) = False"

text \<open>
  What \<open>commit_loop\<close> does, said without the loop: the stores it performs in order, the
  memory and the lock array it leaves.
\<close>

definition publication_events :: "stm_word_t \<Rightarrow> w_entry_t list \<Rightarrow> event list" where
  "publication_events t ws =
     concat (map (\<lambda>w.
       (if w_mask w \<noteq> 0 then [Mem_store (w_addr w) (w_value w)] else []) @
       (if w_next w = NULL then [Lock_store (w_lock w) (LOCK_SET_TIMESTAMP t)] else [])) ws)"

definition published_memory ::
  "w_entry_t list \<Rightarrow> (stm_word_t \<Rightarrow> stm_word_t) \<Rightarrow> stm_word_t \<Rightarrow> stm_word_t" where
  "published_memory ws m =
     fold (\<lambda>w m. if w_mask w \<noteq> 0 then m(w_addr w := w_value w) else m) ws m"

definition committed_locks ::
  "stm_word_t \<Rightarrow> w_entry_t list \<Rightarrow> (nat \<Rightarrow> stm_word_t) \<Rightarrow> nat \<Rightarrow> stm_word_t" where
  "committed_locks t ws L =
     fold (\<lambda>w L. if w_next w = NULL then L(w_lock w := LOCK_SET_TIMESTAMP t) else L) ws L"

text \<open>
  Every lock that has an entry in the write set has exactly one entry whose \<open>next\<close>
  pointer is null: the tail of its bucket.
\<close>

definition single_tail :: "w_entry_t list \<Rightarrow> bool" where
  "single_tail ws \<longleftrightarrow>
     (\<forall>w \<in> set ws. length (filter (\<lambda>w'. w_lock w' = w_lock w \<and> w_next w' = NULL) ws) = 1)"

text \<open>
  The \<open>next\<close> pointers of the entries in use are null or point to a later entry in use:
  \<open>stm_wbetl_write\<close> links the previous entry of a bucket to the entry it appends.
\<close>

definition ws_linked :: "build_consts \<Rightarrow> stm_tx_t \<Rightarrow> bool" where
  "ws_linked K tx \<longleftrightarrow>
     (\<forall>i < unat (w_nb_entries tx).
        w_next (w_cells tx ! i) = NULL \<or>
        (case entry_idx K tx (w_next (w_cells tx ! i)) of
           None \<Rightarrow> False
         | Some j \<Rightarrow> i < j \<and> j < unat (w_nb_entries tx)))"

text \<open>
  The entry \<open>do_write\<close> fills in at the end of the write set.
\<close>

definition new_entry ::
  "global_t \<Rightarrow> stm_word_t \<Rightarrow> stm_word_t \<Rightarrow> stm_word_t \<Rightarrow> nat \<Rightarrow> stm_word_t \<Rightarrow> w_entry_t" where
  "new_entry g addr value msk lock version =
     \<lparr>w_addr = addr,
      w_value = (if msk = 0 then 0
                 else if msk \<noteq> NOT 0 then (memory g addr AND NOT msk) OR (value AND msk)
                 else value),
      w_mask = msk, w_version = version, w_lock = lock, w_next = NULL\<rparr>"

text \<open>
  The condition on one read-set entry in the words of the specification of validation:
  the lock is owned and the pointer in it lies in the write set of this transaction, or
  the lock is free and its timestamp is the version that was read.
\<close>

definition read_entry_valid :: "build_consts \<Rightarrow> stm_tx_t \<Rightarrow> global_t \<Rightarrow> r_entry_t \<Rightarrow> bool" where
  "read_entry_valid K tx g r \<longleftrightarrow>
     (let l = locks g (r_lock r) in
      LOCK_GET_OWNED l \<noteq> 0 \<and> in_w_set K tx (LOCK_GET_ADDR l) \<or>
      LOCK_GET_OWNED l = 0 \<and> LOCK_GET_TIMESTAMP l = r_version r)"

text \<open>
  The indices of the entries of a bucket, from the entry a lock word points to along
  \<open>next\<close> to the entry whose \<open>next\<close> is null.
\<close>

fun bucket_entries :: "nat \<Rightarrow> build_consts \<Rightarrow> stm_tx_t \<Rightarrow> stm_word_t \<Rightarrow> nat list option" where
  "bucket_entries 0 K tx p = None"
| "bucket_entries (Suc n) K tx p =
     (case entry_idx K tx p of
        None \<Rightarrow> None
      | Some i \<Rightarrow>
          if w_next (w_cells tx ! i) = NULL then Some [i]
          else map_option (Cons i) (bucket_entries n K tx (w_next (w_cells tx ! i))))"

text \<open>
  An earlier store to \<open>addr\<close> is still in the write set: the lock of \<open>addr\<close> is owned,
  its word points to an entry in use, and the search of the bucket that
  \<open>stm_wbetl_write\<close> performs from there stops at the entry \<open>r\<close> for \<open>addr\<close>, whose mask
  is not empty and whose value agrees with the stored value on the bits of \<open>msk\<close>.
\<close>

definition written ::
  "build_consts \<Rightarrow> stm_tx_t \<Rightarrow> global_t \<Rightarrow> stm_word_t \<Rightarrow> stm_word_t \<Rightarrow> stm_word_t \<Rightarrow>
   stm_word_t \<Rightarrow> bool" where
  "written K tx g addr value msk r \<longleftrightarrow>
     LOCK_GET_OWNED (locks g (GET_LOCK addr)) \<noteq> 0 \<and>
     (\<exists>n i0 i.
        entry_idx K tx (LOCK_GET_ADDR (locks g (GET_LOCK addr))) = Some i0 \<and>
        i0 < unat (w_nb_entries tx) \<and>
        write_bucket_loop n K tx addr (LOCK_GET_ADDR (locks g (GET_LOCK addr))) =
          Some (Same_addr r) \<and>
        entry_idx K tx r = Some i \<and> w_mask (w_cells tx ! i) \<noteq> 0 \<and>
        w_value (w_cells tx ! i) AND msk = value AND msk)"

text \<open>
  Two descriptors with the same write set.
\<close>

definition same_ws :: "stm_tx_t \<Rightarrow> stm_tx_t \<Rightarrow> bool" where
  "same_ws tx tx' \<longleftrightarrow>
     w_entries tx' = w_entries tx \<and> w_cells tx' = w_cells tx \<and>
     w_nb_entries tx' = w_nb_entries tx \<and> w_size tx' = w_size tx"

text \<open>
  The loads and stores a transaction performs one after the other, each call with its
  own bound on the number of steps: \<open>run_ops\<close> gives the state after the last one when
  every call has returned normally, and \<open>None\<close> as soon as one has not (it has run out
  of steps, failed an assertion or jumped back to the start of the transaction).
\<close>

datatype tx_op =
  Op_load nat stm_word_t
  | Op_store nat stm_word_t stm_word_t stm_word_t

fun run_ops ::
  "build_consts \<Rightarrow> tx_op list \<Rightarrow> stm_tx_t \<Rightarrow> global_t \<Rightarrow> (stm_tx_t \<times> global_t) option" where
  "run_ops K [] tx g = Some (tx, g)"
| "run_ops K (Op_load n a # ops) tx g =
     (case int_stm_load n K tx g a of
        Some (Return v tx' g') \<Rightarrow> run_ops K ops tx' g'
      | _ \<Rightarrow> None)"
| "run_ops K (Op_store n a v m # ops) tx g =
     (case stm_write n K tx g a v m of
        Some (Return r tx' g') \<Rightarrow> run_ops K ops tx' g'
      | _ \<Rightarrow> None)"

text \<open>
  An operation that does not store to a bit of \<open>msk\<close> at \<open>addr\<close>.
\<close>

fun leaves_bits :: "stm_word_t \<Rightarrow> stm_word_t \<Rightarrow> tx_op \<Rightarrow> bool" where
  "leaves_bits addr msk (Op_load n a) = True"
| "leaves_bits addr msk (Op_store n a v m) = (if a = addr then m AND msk = 0 else True)"

section \<open>A concrete transaction state\<close>

text \<open>
  Constants as in \<open>stm.h\<close>, with 64-byte write-set entries; a transaction with
  \<open>no_retry\<close> that started at clock value 3, has read lock 5 at version 2 and has written
  two words of the stripe of lock 128; and the global state it runs in.
\<close>

definition K_ex :: build_consts where
  "K_ex = \<lparr>SIZEOF_W_ENTRY = 64, STM_PATH_INSTRUMENTED = 0x01, STM_ABORT_NO_RETRY = 0x1020,
     STM_ABORT_RW_CONFLICT = 0x240, STM_ABORT_WW_CONFLICT = 0x440, STM_ABORT_VAL_READ = 0x540,
     STM_ABORT_VAL_WRITE = 0x640, STM_ABORT_VALIDATE = 0x740, STM_ABORT_IRREVOCABLE = 0x940,
     STM_ABORT_EXTEND_WS = 0xC40\<rparr>"

definition e0_ex :: w_entry_t where
  "e0_ex = \<lparr>w_addr = 0x1000, w_value = 7, w_mask = NOT 0, w_version = 3, w_lock = 128,
     w_next = 0x10040\<rparr>"

definition e1_ex :: w_entry_t where
  "e1_ex = \<lparr>w_addr = 0x1008, w_value = 9, w_mask = 0xFF, w_version = 3, w_lock = 128,
     w_next = NULL\<rparr>"

definition tx_ex :: stm_tx_t where
  "tx_ex = \<lparr>tx_attr = \<lparr>attr_id = 0, read_only = False, visible_reads = False, no_retry = True\<rparr>,
     tx_status = TX_ACTIVE, tx_start = 3, tx_end = 3,
     r_entries = [\<lparr>r_version = 2, r_lock = 5\<rparr>, zero_r_entry], r_nb_entries = 1, r_size = 2,
     w_entries = 0x10000, w_cells = [e0_ex, e1_ex, zero_entry, zero_entry],
     w_nb_entries = 2, w_size = 4, w_has_writes = 2, tx_nesting = 1, tx_irrevocable = 0\<rparr>"

definition g_ex :: global_t where
  "g_ex = \<lparr>locks = (\<lambda>k. if k = 128 then 0x10001 else if k = 5 then 0x20 else 0), CLOCK = 3,
     g_irrevocable = 0, precommit_cb = [], commit_cb = [], abort_cb = [], quiesce = 0,
     threads_nb = 1, memory = (\<lambda>a. 0), xrealloc = (\<lambda>p n. 0x20000), trace = []\<rparr>"

text \<open>
  The same transaction with a snapshot taken at clock value 1 and lock 5 read at
  version 1, which the lock no longer has.
\<close>

definition tx_stale :: stm_tx_t where
  "tx_stale = tx_ex\<lparr>tx_start := 1, tx_end := 1,
     r_entries := [\<lparr>r_version = 1, r_lock = 5\<rparr>, zero_r_entry]\<rparr>"

text \<open>
  The second entry, and the descriptor, after byte 1 of the word at \<open>0x1008\<close> has been
  stored to as well.
\<close>

definition e1_merged :: w_entry_t where
  "e1_merged = \<lparr>w_addr = 0x1008, w_value = 0xAB09, w_mask = 0xFFFF, w_version = 3, w_lock = 128,
     w_next = NULL\<rparr>"

definition tx_merged :: stm_tx_t where
  "tx_merged = tx_ex\<lparr>w_cells := [e0_ex, e1_merged, zero_entry, zero_entry]\<rparr>"


text \<open>
  The write set after a further store of 5 to the word at \<open>0x1010\<close>, which shares lock
  128: a third entry, to which the second one is linked.
\<close>

definition e1_linked :: w_entry_t where
  "e1_linked = \<lparr>w_addr = 0x1008, w_value = 0xAB09, w_mask = 0xFFFF, w_version = 3, w_lock = 128,
     w_next = 0x10080\<rparr>"

definition e2_ex :: w_entry_t where
  "e2_ex = \<lparr>w_addr = 0x1010, w_value = 5, w_mask = NOT 0, w_version = 3, w_lock = 128,
     w_next = NULL\<rparr>"

definition tx_after :: stm_tx_t where
  "tx_after = tx_ex\<lparr>w_cells := [e0_ex, e1_linked, e2_ex, zero_entry], w_nb_entries := 3,
     w_has_writes := 3\<rparr>"

text \<open>
  That store, followed by a load of the word at \<open>0x1000\<close>.
\<close>

definition ops_ex :: "tx_op list" where
  "ops_ex = [Op_store (Suc (Suc (Suc 0))) 0x1010 5 (NOT 0), Op_load (Suc (Suc 0)) 0x1000]"

section \<open>The lock-word encoding\<close>

lemma drop_push_lock_bits:
  "drop_bit 4 (push_bit 4 t) = take_bit 60 (t :: stm_word_t)"
  by (rule bit_word_eqI)
    (simp add: bit_drop_bit_eq bit_push_bit_iff bit_take_bit_iff)

lemma take_bit_small_version:
  "t < 2 ^ 60 \<Longrightarrow> take_bit 60 t = (t :: stm_word_t)"
  by (simp add: mod_word_less take_bit_eq_mod)

lemma all_ones_shifted: "drop_bit 4 (NOT 0 :: stm_word_t) = 2 ^ 60 - 1"
  by (simp add: mask_eq_exp_minus_1)

lemma version_limit: "VERSION_MAX + MAX_THREADS = 2 ^ 60 - 1"
  by (simp add: VERSION_MAX_def LOCK_BITS_def OWNED_BITS_def INCARNATION_BITS_def
      mask_eq_exp_minus_1)

lemma timestamp_roundtrip:
  assumes "t \<le> VERSION_MAX + MAX_THREADS"
  shows "LOCK_GET_TIMESTAMP (LOCK_SET_TIMESTAMP t) = t"
proof -
  from assms have "t \<le> 2 ^ 60 - 1"
    by (simp only: version_limit)
  then have "t < 2 ^ 60"
    by (simp add: word_le_nat_alt word_less_nat_alt)
  then have "take_bit 60 t = t"
    by (rule take_bit_small_version)
  then show ?thesis
    by (simp add: LOCK_GET_TIMESTAMP_def LOCK_SET_TIMESTAMP_def LOCK_BITS_def
        OWNED_BITS_def INCARNATION_BITS_def drop_push_lock_bits)
qed

lemma timestamp_not_owned: "LOCK_GET_OWNED (LOCK_SET_TIMESTAMP t) = 0"
  by (rule bit_word_eqI)
    (simp add: LOCK_GET_OWNED_def LOCK_SET_TIMESTAMP_def LOCK_BITS_def OWNED_BITS_def
      INCARNATION_BITS_def OWNED_MASK_def WRITE_MASK_def bit_and_iff bit_push_bit_iff
      bit_1_iff)

lemma owned_bit_set: "LOCK_GET_OWNED (LOCK_SET_ADDR_WRITE a) = 1"
  by (rule bit_word_eqI)
    (auto simp add: LOCK_GET_OWNED_def LOCK_SET_ADDR_WRITE_def OWNED_MASK_def
      WRITE_MASK_def bit_and_iff bit_or_iff bit_1_iff)

lemma even_addr_roundtrip:
  assumes "a AND 1 = 0"
  shows "LOCK_GET_ADDR (LOCK_SET_ADDR_WRITE a) = a"
proof (rule bit_word_eqI)
  fix n
  assume n: "n < LENGTH(64)"
  from assms have "\<not> bit a 0"
    by (metis and.right_neutral bit_0 bit_1_0 bit_and_iff even_zero odd_one one_and_eq
        zero_neq_one)
  with n show "bit (LOCK_GET_ADDR (LOCK_SET_ADDR_WRITE a)) n = bit a n"
    by (cases "n = 0")
      (simp_all add: LOCK_GET_ADDR_def LOCK_SET_ADDR_WRITE_def OWNED_MASK_def
        WRITE_MASK_def bit_and_iff bit_or_iff bit_not_iff bit_1_iff)
qed

lemma aligned16_even:
  assumes "a AND 15 = 0"
  shows "a AND 1 = (0 :: stm_word_t)"
proof -
  have "a AND 1 = (a AND 15) AND 1"
    by (simp add: and.assoc)
  with assms show ?thesis
    by simp
qed

text \<open>
  Claim C9. The lock-word encoding round-trips. For every representable version \<open>t\<close>
  (up to \<open>VERSION_MAX + MAX_THREADS\<close>, the largest value that fits above the low
  \<open>LOCK_BITS\<close> bits), the free encoding \<open>LOCK_SET_TIMESTAMP t\<close> has the owned bit clear
  and decodes back to \<open>t\<close>. For every write-set-entry address \<open>a\<close> whose low four bits
  are zero (16-byte alignment), the owned encoding \<open>LOCK_SET_ADDR_WRITE a\<close> has the
  owned bit set and \<open>LOCK_GET_ADDR\<close> recovers exactly \<open>a\<close>.
\<close>

theorem lock_word_roundtrip:
  "(t \<le> VERSION_MAX + MAX_THREADS \<longrightarrow>
      LOCK_GET_OWNED (LOCK_SET_TIMESTAMP t) = 0 \<and>
      LOCK_GET_TIMESTAMP (LOCK_SET_TIMESTAMP t) = t) \<and>
   (a AND 15 = 0 \<longrightarrow>
      LOCK_GET_OWNED (LOCK_SET_ADDR_WRITE a) \<noteq> 0 \<and>
      LOCK_GET_ADDR (LOCK_SET_ADDR_WRITE a) = a)"
  by (simp add: timestamp_roundtrip timestamp_not_owned owned_bit_set
      even_addr_roundtrip aligned16_even)

theorem lock_word_roundtrip_witness:
  "(5 :: stm_word_t) \<le> VERSION_MAX + MAX_THREADS \<and>
   LOCK_SET_TIMESTAMP 5 = 80 \<and>
   LOCK_GET_OWNED (LOCK_SET_TIMESTAMP 5) = 0 \<and>
   LOCK_GET_TIMESTAMP (LOCK_SET_TIMESTAMP 5) = 5 \<and>
   (4096 :: stm_word_t) AND 15 = 0 \<and>
   LOCK_SET_ADDR_WRITE 4096 = 4097 \<and>
   LOCK_GET_OWNED (LOCK_SET_ADDR_WRITE 4096) \<noteq> 0 \<and>
   LOCK_GET_ADDR (LOCK_SET_ADDR_WRITE 4096) = 4096"
proof -
  have v: "(5 :: stm_word_t) \<le> VERSION_MAX + MAX_THREADS"
    by (simp add: version_limit)
  have a: "(4096 :: stm_word_t) AND 15 = 0"
    by simp
  have e: "LOCK_SET_TIMESTAMP 5 = 80"
    by (simp add: LOCK_SET_TIMESTAMP_def LOCK_BITS_def OWNED_BITS_def INCARNATION_BITS_def)
  have w: "LOCK_SET_ADDR_WRITE 4096 = 4097"
    by (simp add: LOCK_SET_ADDR_WRITE_def WRITE_MASK_def)
  from lock_word_roundtrip [of 5 4096] v a e w show ?thesis
    by simp
qed

section \<open>The transaction engine\<close>

subsection \<open>Write-set layout and entry pointers\<close>

lemma unat_entry_ptr:
  assumes "unat (w_entries tx) + i * SIZEOF_W_ENTRY K < 2 ^ 64"
  shows "unat (entry_ptr K tx i) = unat (w_entries tx) + i * SIZEOF_W_ENTRY K"
proof -
  let ?n = "i * SIZEOF_W_ENTRY K"
  from assms have "?n < 2 ^ LENGTH(64)"
    by simp
  with refl have n: "unat (word_of_nat ?n :: stm_word_t) = ?n"
    by (rule of_nat_inverse)
  with assms have "unat (w_entries tx) + unat (word_of_nat ?n :: stm_word_t) < 2 ^ LENGTH(64)"
    by simp
  then have "unat (w_entries tx + word_of_nat ?n) =
      unat (w_entries tx) + unat (word_of_nat ?n :: stm_word_t)"
    by (rule unat_add_lem [THEN iffD1])
  with n show ?thesis
    by (simp only: entry_ptr_def)
qed

lemma layout_bound:
  assumes "layout_ok K tx" "i \<le> unat (w_size tx)"
  shows "unat (w_entries tx) + i * SIZEOF_W_ENTRY K < 2 ^ 64"
proof -
  from assms(2) have "i * SIZEOF_W_ENTRY K \<le> unat (w_size tx) * SIZEOF_W_ENTRY K"
    by (rule mult_le_mono1)
  then have "unat (w_entries tx) + i * SIZEOF_W_ENTRY K \<le>
      unat (w_entries tx) + unat (w_size tx) * SIZEOF_W_ENTRY K"
    by (rule add_left_mono)
  also from assms(1) have "\<dots> < 2 ^ 64"
    by (simp only: layout_ok_def)
  finally show ?thesis .
qed

lemma unat_entry_ptr_ok:
  "layout_ok K tx \<Longrightarrow> i \<le> unat (w_size tx) \<Longrightarrow>
   unat (entry_ptr K tx i) = unat (w_entries tx) + i * SIZEOF_W_ENTRY K"
  by (rule unat_entry_ptr) (rule layout_bound)

lemma entry_idx_entry_ptr:
  assumes "layout_ok K tx" "i < unat (w_size tx)"
  shows "entry_idx K tx (entry_ptr K tx i) = Some i"
proof -
  let ?p = "entry_ptr K tx i"
  from assms have u: "unat ?p = unat (w_entries tx) + i * SIZEOF_W_ENTRY K"
    by (simp add: unat_entry_ptr_ok)
  then have le: "w_entries tx \<le> ?p"
    by (simp add: word_le_nat_alt)
  then have "unat (?p - w_entries tx) = unat ?p - unat (w_entries tx)"
    by (rule unat_sub)
  with u have off: "unat (?p - w_entries tx) = i * SIZEOF_W_ENTRY K"
    by simp
  from assms have "0 < SIZEOF_W_ENTRY K" "length (w_cells tx) = unat (w_size tx)"
    by (simp_all add: layout_ok_def)
  with le off assms(2) show ?thesis
    by (simp add: entry_idx_def)
qed

lemma entry_idx_SomeD:
  assumes "entry_idx K tx p = Some i"
  shows "p = entry_ptr K tx i \<and> i < length (w_cells tx)"
proof -
  let ?s = "SIZEOF_W_ENTRY K"
  let ?off = "unat (p - w_entries tx)"
  have c: "w_entries tx \<le> p \<and> 0 < ?s \<and> ?off mod ?s = 0 \<and>
      ?off div ?s < length (w_cells tx)"
    using assms unfolding entry_idx_def Let_def by - (rule ccontr, simp)
  with assms have i: "i = ?off div ?s"
    unfolding entry_idx_def Let_def by simp
  from c have "?off div ?s * ?s = ?off"
    by (simp add: mod_eq_0_iff_dvd)
  with i have "i * ?s = ?off"
    by simp
  then have "word_of_nat (i * ?s) = (word_of_nat ?off :: stm_word_t)"
    by (simp only:)
  also have "\<dots> = p - w_entries tx"
    by simp
  finally have eq: "word_of_nat (i * ?s) = p - w_entries tx" .
  have p: "p = entry_ptr K tx i"
    unfolding entry_ptr_def eq by simp
  from c have "?off div ?s < length (w_cells tx)"
    by blast
  then have "i < length (w_cells tx)"
    by (simp only: i)
  with p show ?thesis
    by (rule conjI)
qed

lemma in_w_set_entry_ptr:
  assumes "layout_ok K tx" "i \<le> unat (w_size tx)"
  shows "in_w_set K tx (entry_ptr K tx i) \<longleftrightarrow> i < unat (w_nb_entries tx)"
proof -
  from assms(1) have nb: "unat (w_nb_entries tx) \<le> unat (w_size tx)"
    by (simp add: layout_ok_def word_le_nat_alt)
  from assms(1) have s: "0 < SIZEOF_W_ENTRY K"
    by (simp add: layout_ok_def)
  have u1: "unat (entry_ptr K tx i) = unat (w_entries tx) + i * SIZEOF_W_ENTRY K"
    using assms by (rule unat_entry_ptr_ok)
  have u2: "unat (entry_ptr K tx (unat (w_nb_entries tx))) =
    unat (w_entries tx) + unat (w_nb_entries tx) * SIZEOF_W_ENTRY K"
    using assms(1) nb by (rule unat_entry_ptr_ok)
  from s show ?thesis
    by (simp add: in_w_set_def word_le_nat_alt word_less_nat_alt u1 u2)
qed

lemma word_and_one_even: "(w :: stm_word_t) AND 1 = 0 \<longleftrightarrow> even (unat w)"
  using and_mask_dvd_nat [of 1 w] by simp

lemma entry_ptr_even:
  assumes "layout_ok K tx" "i \<le> unat (w_size tx)"
  shows "entry_ptr K tx i AND 1 = 0"
proof -
  from assms have u: "unat (entry_ptr K tx i) = unat (w_entries tx) + i * SIZEOF_W_ENTRY K"
    by (rule unat_entry_ptr_ok)
  from assms(1) have "w_entries tx AND 1 = 0" "even (SIZEOF_W_ENTRY K)"
    by (simp_all add: layout_ok_def OWNED_MASK_def WRITE_MASK_def)
  then have "even (unat (w_entries tx))" "even (i * SIZEOF_W_ENTRY K)"
    by (simp_all add: word_and_one_even)
  with u have "even (unat (entry_ptr K tx i))"
    by simp
  then show ?thesis
    by (simp only: word_and_one_even)
qed

lemma entry_ptr_not_null:
  assumes "layout_ok K tx" "i \<le> unat (w_size tx)"
  shows "entry_ptr K tx i \<noteq> NULL"
proof -
  from assms have u: "unat (entry_ptr K tx i) = unat (w_entries tx) + i * SIZEOF_W_ENTRY K"
    by (rule unat_entry_ptr_ok)
  from assms(1) have "w_entries tx \<noteq> 0"
    by (simp add: layout_ok_def NULL_def)
  then have "0 < unat (w_entries tx)"
    by (simp add: unat_gt_0)
  with u have "0 < unat (entry_ptr K tx i)"
    by simp
  then show ?thesis
    by (auto simp add: NULL_def)
qed

subsection \<open>Releasing the locks on rollback\<close>

lemma drop_locks_loop_eq:
  "drop_locks_loop ws g =
     g\<lparr>locks := released_locks ws (locks g), trace := trace g @ release_events ws\<rparr>"
  by (induction ws arbitrary: g)
    (simp_all add: released_locks_def release_events_def ATOMIC_STORE_LOCK_def)




lemma sint_small: 
  fixes nb :: uint
  assumes "nb \<le> 0x7FFFFFFF"
  shows "sint nb = uint nb"
proof -
  from assms have "uint nb \<le> 0x7FFFFFFF"
    by (simp add: word_le_def)
  then have hi: "uint nb < 2 ^ 31"
    by simp
  have "- (2 ^ 31) \<le> (0 :: int)"
    by simp
  also have "0 \<le> uint nb"
    by simp
  finally have lo: "- (2 ^ 31) \<le> uint nb" .
  from lo hi have "signed_take_bit 31 (uint nb) = uint nb"
    by (rule signed_take_bit_int_eq_self)
  then show ?thesis
    by (simp add: sint_uint)
qed

lemma loop_count_unat: "nb \<le> INT_MAX \<Longrightarrow> loop_count nb = unat nb"
  by (simp add: loop_count_def INT_MAX_def sint_small)

lemma run_callbacks_eq: "run_callbacks cbs g = g\<lparr>trace := trace g @ map Callback cbs\<rparr>"
  by (induction cbs arbitrary: g) simp_all

lemma not_active_aborted: "\<not> IS_ACTIVE TX_ABORTED"
  by (simp add: IS_ACTIVE_def TX_ABORTED_def TX_ACTIVE_def)







subsection \<open>Rollback without retry\<close>

lemma stm_rollback_no_retry_eq:
  assumes "IS_ACTIVE (tx_status tx)"
    and "no_retry (tx_attr tx) \<or> reason AND STM_ABORT_NO_RETRY K = STM_ABORT_NO_RETRY K"
    and "reason = STM_ABORT_EXTEND_WS K \<longrightarrow>
      xrealloc g (w_entries tx) (unat (w_size tx * 2) * SIZEOF_W_ENTRY K) AND OWNED_MASK = 0"
  shows "stm_rollback n K tx g reason =
    Some (Return () ((abort_descriptor K tx g reason)\<lparr>tx_nesting := 0\<rparr>)
      (run_callbacks (abort_cb g)
         (drop_locks_loop (take (loop_count (w_nb_entries tx)) (w_cells tx)) g)))"
proof (cases "reason = STM_ABORT_EXTEND_WS K")
  case True
  with assms show ?thesis
    by (simp add: stm_rollback_def stm_wbetl_rollback_def stm_allocate_ws_entries_extend_def
        abort_descriptor_def drop_locks_loop_eq Let_def)
next
  case False
  with assms show ?thesis
    by (simp add: stm_rollback_def stm_wbetl_rollback_def abort_descriptor_def
        drop_locks_loop_eq Let_def)
qed

text \<open>
  Claim C8. A rollback of an active transaction with \<open>no_retry\<close> set in the attributes,
  or with the \<open>STM_ABORT_NO_RETRY\<close> bits in the reason, returns normally: the result is
  \<open>Return\<close>, not the jump back to the start of the transaction. The locks of the write
  set have been released, the abort callbacks have run, the status is \<open>TX_ABORTED\<close>, so
  that \<open>int_stm_aborted\<close> gives 1 and \<open>int_stm_active\<close> gives 0, and the nesting is 0. The
  descriptor has not been prepared for another run: the read-set and write-set counts,
  \<open>has_writes\<close>, \<open>start\<close> and \<open>end\<close> are what they were. For the reason
  \<open>STM_ABORT_EXTEND_WS\<close> the reallocated array is aligned, as the code asserts.
\<close>

theorem rollback_no_retry_returns:
  assumes "IS_ACTIVE (tx_status tx)"
    and "no_retry (tx_attr tx) \<or> reason AND STM_ABORT_NO_RETRY K = STM_ABORT_NO_RETRY K"
    and "reason = STM_ABORT_EXTEND_WS K \<longrightarrow>
      xrealloc g (w_entries tx) (unat (w_size tx * 2) * SIZEOF_W_ENTRY K) AND OWNED_MASK = 0"
    and "w_nb_entries tx \<le> INT_MAX"
  shows "\<exists>tx' g'. stm_rollback n K tx g reason = Some (Return () tx' g') \<and>
      locks g' = released_locks (write_set tx) (locks g) \<and>
      trace g' = trace g @ release_events (write_set tx) @ map Callback (abort_cb g) \<and>
      memory g' = memory g \<and> CLOCK g' = CLOCK g \<and>
      tx_status tx' = TX_ABORTED \<and> int_stm_aborted tx' = 1 \<and> int_stm_active tx' = 0 \<and>
      tx_nesting tx' = 0 \<and>
      r_nb_entries tx' = r_nb_entries tx \<and> w_nb_entries tx' = w_nb_entries tx \<and>
      w_has_writes tx' = w_has_writes tx \<and>
      tx_start tx' = tx_start tx \<and> tx_end tx' = tx_end tx"
proof -
  define tx' where "tx' = (abort_descriptor K tx g reason)\<lparr>tx_nesting := 0\<rparr>"
  define g' where
    "g' = run_callbacks (abort_cb g)
       (drop_locks_loop (take (loop_count (w_nb_entries tx)) (w_cells tx)) g)"
  from assms(1-3) have "stm_rollback n K tx g reason = Some (Return () tx' g')"
    unfolding tx'_def g'_def by (rule stm_rollback_no_retry_eq)
  moreover from assms(4) have "locks g' = released_locks (write_set tx) (locks g)"
    "trace g' = trace g @ release_events (write_set tx) @ map Callback (abort_cb g)"
    "memory g' = memory g" "CLOCK g' = CLOCK g"
    by (simp_all add: g'_def run_callbacks_eq drop_locks_loop_eq loop_count_unat write_set_def)
  moreover have "tx_status tx' = TX_ABORTED" "tx_nesting tx' = 0"
    "r_nb_entries tx' = r_nb_entries tx" "w_nb_entries tx' = w_nb_entries tx"
    "w_has_writes tx' = w_has_writes tx" "tx_start tx' = tx_start tx" "tx_end tx' = tx_end tx"
    by (simp_all add: tx'_def abort_descriptor_def)
  moreover from this(1) have "int_stm_aborted tx' = 1" "int_stm_active tx' = 0"
    by (simp_all add: int_stm_aborted_def int_stm_active_def not_active_aborted)
  ultimately show ?thesis
    by blast
qed

subsection \<open>What rollback and restart leave alone\<close>






lemma then_do_SomeD:
  assumes "then_do m k = Some out"
  shows "(\<exists>v tx g. m = Some (Return v tx g) \<and> k v tx g = Some out) \<or>
         (\<exists>r tx g. m = Some (Longjmp r tx g) \<and> out = Longjmp r tx g) \<or>
         (m = Some Assert_fail \<and> out = Assert_fail) \<or>
         (m = Some Wild_pointer \<and> out = Wild_pointer)"
proof (cases m)
  case None
  with assms show ?thesis by simp
next
  case (Some o')
  with assms show ?thesis by (cases o') auto
qed







lemma stm_rollback_Return_aborted:
  assumes "stm_rollback n K tx g reason = Some (Return v tx' g')"
  shows "tx_status tx' = TX_ABORTED"
proof -
  have "\<And>m tx4. then_do m (\<lambda>_ tx4 g3. Some (Longjmp (reason OR STM_PATH_INSTRUMENTED K) tx4 g3))
      \<noteq> Some (Return v tx' g')"
    by (auto dest!: then_do_SomeD)
  with assms show ?thesis
    by (auto simp add: stm_rollback_def stm_wbetl_rollback_def Let_def
        stm_allocate_ws_entries_extend_def split: if_splits option.splits)
qed

subsection \<open>Commit\<close>

lemma commit_loop_eq:
  "commit_loop t ws g =
     g\<lparr>memory := published_memory ws (memory g),
       locks := committed_locks t ws (locks g),
       trace := trace g @ publication_events t ws\<rparr>"
  by (induction ws arbitrary: g)
    (simp_all add: published_memory_def committed_locks_def publication_events_def
      ATOMIC_STORE_LOCK_def ATOMIC_STORE_def Let_def)

lemma committed_locks_other:
  "\<forall>w \<in> set ws. w_next w = NULL \<longrightarrow> w_lock w \<noteq> k \<Longrightarrow> committed_locks t ws L k = L k"
  by (induction ws arbitrary: L) (auto simp add: committed_locks_def)

lemma committed_locks_tail:
  "\<exists>w \<in> set ws. w_next w = NULL \<and> w_lock w = k \<Longrightarrow>
   committed_locks t ws L k = LOCK_SET_TIMESTAMP t"
proof (induction ws arbitrary: L rule: rev_induct)
  case Nil
  then show ?case by simp
next
  case (snoc x xs)
  show ?case
  proof (cases "w_next x = NULL \<and> w_lock x = k")
    case True
    then show ?thesis
      by (simp add: committed_locks_def)
  next
    case False
    with snoc.prems have "\<exists>w \<in> set xs. w_next w = NULL \<and> w_lock w = k"
      by auto
    then have "committed_locks t xs L k = LOCK_SET_TIMESTAMP t"
      by (rule snoc.IH)
    with False show ?thesis
      by (auto simp add: committed_locks_def)
  qed
qed

lemma lock_stores_publication:
  "filter (is_lock_store k) (publication_events t ws) =
   map (\<lambda>w. Lock_store k (LOCK_SET_TIMESTAMP t))
     (filter (\<lambda>w'. w_lock w' = k \<and> w_next w' = NULL) ws)"
  by (induction ws) (auto simp add: publication_events_def)

lemma mem_stores_publication:
  "filter is_mem_store (publication_events t ws) =
   map (\<lambda>w. Mem_store (w_addr w) (w_value w)) (filter (\<lambda>w. w_mask w \<noteq> 0) ws)"
  by (induction ws) (auto simp add: publication_events_def)

lemma stm_wbetl_commit_publishes:
  assumes "tx_irrevocable tx = 0" "g_irrevocable g = 0"
    and "tx_start tx = CLOCK g \<or> stm_wbetl_validate K tx (g\<lparr>CLOCK := CLOCK g + 1\<rparr>) \<noteq> 0"
  shows "stm_wbetl_commit n K tx g =
    Some (Return 1 tx (commit_loop (CLOCK g + 1)
      (take (loop_count (w_nb_entries tx)) (w_cells tx)) (g\<lparr>CLOCK := CLOCK g + 1\<rparr>)))"
  using assms by (auto simp add: stm_wbetl_commit_def Let_def)



text \<open>
  Claim C4. Publication at commit. When the commit goes through, it returns 1 and the
  stores it performs are, in this order, \<open>publication_events t\<close> of the write set taken in
  insertion order: for each entry a store of its value to its address if and only if its
  mask is nonzero, then a store of \<open>LOCK_SET_TIMESTAMP t\<close> to its lock if and only if its
  \<open>next\<close> pointer is null, with \<open>t = CLOCK + 1\<close>. When every bucket has exactly one entry
  with a null \<open>next\<close> pointer (\<open>single_tail\<close>), each lock of the write set is stored to
  exactly once and holds the free encoding of \<open>t\<close> afterwards, and no other lock changes.
\<close>

theorem commit_publication_order:
  assumes "tx_irrevocable tx = 0" and "g_irrevocable g = 0"
    and "tx_start tx = CLOCK g \<or> stm_wbetl_validate K tx (g\<lparr>CLOCK := CLOCK g + 1\<rparr>) \<noteq> 0"
    and "w_nb_entries tx \<le> INT_MAX"
    and "single_tail (write_set tx)"
  shows "\<exists>g'. stm_wbetl_commit n K tx g = Some (Return 1 tx g') \<and>
      trace g' = trace g @ publication_events (CLOCK g + 1) (write_set tx) \<and>
      memory g' = published_memory (write_set tx) (memory g) \<and>
      (\<forall>w \<in> set (write_set tx).
         locks g' (w_lock w) = LOCK_SET_TIMESTAMP (CLOCK g + 1) \<and>
         filter (is_lock_store (w_lock w)) (publication_events (CLOCK g + 1) (write_set tx)) =
           [Lock_store (w_lock w) (LOCK_SET_TIMESTAMP (CLOCK g + 1))]) \<and>
      (\<forall>k. k \<notin> w_lock ` set (write_set tx) \<longrightarrow> locks g' k = locks g k)"
proof -
  let ?t = "CLOCK g + 1"
  let ?ws = "write_set tx"
  define g' where "g' = commit_loop ?t ?ws (g\<lparr>CLOCK := ?t\<rparr>)"
  from assms(4) have ws: "take (loop_count (w_nb_entries tx)) (w_cells tx) = ?ws"
    by (simp add: loop_count_unat write_set_def)
  from assms(1-3) have c: "stm_wbetl_commit n K tx g = Some (Return 1 tx g')"
    unfolding g'_def ws [symmetric] by (rule stm_wbetl_commit_publishes)
  have tr: "trace g' = trace g @ publication_events ?t ?ws"
    and mem: "memory g' = published_memory ?ws (memory g)"
    and lk: "locks g' = committed_locks ?t ?ws (locks g)"
    by (simp_all add: g'_def commit_loop_eq)
  have own: "locks g' (w_lock w) = LOCK_SET_TIMESTAMP ?t \<and>
      filter (is_lock_store (w_lock w)) (publication_events ?t ?ws) =
        [Lock_store (w_lock w) (LOCK_SET_TIMESTAMP ?t)]"
    if w: "w \<in> set ?ws" for w
  proof -
    let ?tails = "filter (\<lambda>w'. w_lock w' = w_lock w \<and> w_next w' = NULL) ?ws"
    from assms(5) w have one: "length ?tails = 1"
      by (simp add: single_tail_def)
    then obtain x where x: "?tails = [x]"
      by (cases ?tails) auto
    then have "x \<in> set ?tails"
      by simp
    then have "\<exists>w' \<in> set ?ws. w_next w' = NULL \<and> w_lock w' = w_lock w"
      by auto
    then have "committed_locks ?t ?ws (locks g) (w_lock w) = LOCK_SET_TIMESTAMP ?t"
      by (rule committed_locks_tail)
    with x show ?thesis
      by (simp add: lk lock_stores_publication)
  qed
  have other: "locks g' k = locks g k" if "k \<notin> w_lock ` set ?ws" for k
  proof -
    from that have "\<forall>w \<in> set ?ws. w_next w = NULL \<longrightarrow> w_lock w \<noteq> k"
      by auto
    then show ?thesis
      by (simp add: lk committed_locks_other)
  qed
  from c tr mem own other show ?thesis
    by blast
qed

subsection \<open>Stores that return\<close>

lemma do_write_ReturnD:
  assumes "do_write K tx g addr value msk lock version w prev = Some (Return r tx' g')"
  shows "g' = g \<and> r = w \<and> tx_status tx' = tx_status tx \<and> w_entries tx' = w_entries tx \<and>
    w_nb_entries tx' = w_nb_entries tx + 1 \<and> w_size tx' = w_size tx \<and>
    length (w_cells tx') = length (w_cells tx) \<and> r_entries tx' = r_entries tx \<and>
    r_nb_entries tx' = r_nb_entries tx \<and> tx_attr tx' = tx_attr tx \<and>
    tx_irrevocable tx' = tx_irrevocable tx \<and> tx_end tx' = tx_end tx"
  using assms
  by (auto simp add: do_write_def Let_def split: option.splits if_splits)

lemma merge_into_entry_ReturnD:
  assumes "merge_into_entry K tx g addr value msk prev = Some (Return r tx' g')"
  shows "g' = g \<and> r = prev \<and> tx_status tx' = tx_status tx \<and> w_entries tx' = w_entries tx \<and>
    w_nb_entries tx' = w_nb_entries tx \<and> w_size tx' = w_size tx \<and>
    length (w_cells tx') = length (w_cells tx)"
  using assms
  by (auto simp add: merge_into_entry_def Let_def split: option.splits if_splits)

lemma extend_ws_if_full_ReturnD:
  assumes "extend_ws_if_full n K tx g = Some (Return v tx1 g1)"
  shows "(w_nb_entries tx \<noteq> w_size tx \<and> tx1 = tx \<and> g1 = g) \<or>
         (w_nb_entries tx = w_size tx \<and> tx_status tx1 = TX_ABORTED)"
  using assms
  by (auto simp add: extend_ws_if_full_def split: if_splits dest: stm_rollback_Return_aborted)

lemma rollback_then_return_status:
  assumes "then_do (stm_rollback n K tx g reason) (\<lambda>_ tx' g'. Some (Return v tx' g')) =
    Some (Return r tx' g')"
  shows "tx_status tx' = TX_ABORTED"
  using then_do_SomeD [OF assms]
  by (auto dest: stm_rollback_Return_aborted)

lemma stm_rollback_inactive:
  "\<not> IS_ACTIVE (tx_status tx) \<Longrightarrow> stm_rollback n K tx g reason = Some Assert_fail"
  by (simp add: stm_rollback_def)

lemma stm_wbetl_write_Suc_ReturnD:
  assumes "stm_wbetl_write (Suc n) K tx g addr value msk = Some (Return r tx' g')"
  shows
   "(LOCK_GET_OWNED (locks g (GET_LOCK addr)) \<noteq> 0 \<and>
     in_w_set K tx (LOCK_GET_ADDR (locks g (GET_LOCK addr))) \<and>
       (msk = 0 \<and> r = LOCK_GET_ADDR (locks g (GET_LOCK addr)) \<and> tx' = tx \<and> g' = g \<or>
        msk \<noteq> 0 \<and>
        (\<exists>prev. write_bucket_loop n K tx addr (LOCK_GET_ADDR (locks g (GET_LOCK addr))) =
             Some (Same_addr prev) \<and>
           merge_into_entry K tx g addr value msk prev = Some (Return r tx' g')) \<or>
        msk \<noteq> 0 \<and>
        (\<exists>prev j v tx1 g1.
           write_bucket_loop n K tx addr (LOCK_GET_ADDR (locks g (GET_LOCK addr))) =
             Some (Last_entry prev) \<and>
           entry_idx K tx prev = Some j \<and>
           extend_ws_if_full n K tx g = Some (Return v tx1 g1) \<and>
           do_write K tx1 g1 addr value msk (GET_LOCK addr) (w_version (w_cells tx ! j))
             (entry_ptr K tx1 (unat (w_nb_entries tx1))) prev = Some (Return r tx' g')))) \<or>
    (LOCK_GET_OWNED (locks g (GET_LOCK addr)) \<noteq> 0 \<and>
     \<not> in_w_set K tx (LOCK_GET_ADDR (locks g (GET_LOCK addr))) \<and>
       (tx_irrevocable tx \<noteq> 0 \<and>
          stm_wbetl_write n K tx g addr value msk = Some (Return r tx' g') \<or>
        tx_irrevocable tx = 0 \<and> r = NULL \<and>
          stm_rollback n K tx g (STM_ABORT_WW_CONFLICT K) = Some (Return () tx' g'))) \<or>
    (LOCK_GET_OWNED (locks g (GET_LOCK addr)) = 0 \<and>
       (tx_irrevocable tx = 0 \<and>
        tx_end tx < LOCK_GET_TIMESTAMP (locks g (GET_LOCK addr)) \<and>
        stm_has_read tx (GET_LOCK addr) \<noteq> None \<and> r = NULL \<and>
        stm_rollback n K tx g (STM_ABORT_VAL_WRITE K) = Some (Return () tx' g') \<or>
        \<not> (tx_irrevocable tx = 0 \<and>
           tx_end tx < LOCK_GET_TIMESTAMP (locks g (GET_LOCK addr)) \<and>
           stm_has_read tx (GET_LOCK addr) \<noteq> None) \<and>
        (\<exists>v tx1 g1.
           extend_ws_if_full n K tx g = Some (Return v tx1 g1) \<and>
           (locks g1 (GET_LOCK addr) = locks g (GET_LOCK addr) \<and>
            do_write K tx1
              (ATOMIC_STORE_LOCK (GET_LOCK addr)
                 (LOCK_SET_ADDR_WRITE (entry_ptr K tx1 (unat (w_nb_entries tx1)))) g1)
              addr value msk (GET_LOCK addr) (LOCK_GET_TIMESTAMP (locks g (GET_LOCK addr)))
              (entry_ptr K tx1 (unat (w_nb_entries tx1))) NULL = Some (Return r tx' g') \<or>
            locks g1 (GET_LOCK addr) \<noteq> locks g (GET_LOCK addr) \<and>
            stm_wbetl_write n K tx1 g1 addr value msk = Some (Return r tx' g')))))"
proof (cases "LOCK_GET_OWNED (locks g (GET_LOCK addr)) \<noteq> 0")
  case owned: True
  show ?thesis
  proof (cases "in_w_set K tx (LOCK_GET_ADDR (locks g (GET_LOCK addr)))")
    case True
    with owned assms show ?thesis
      by (auto simp add: Let_def split: if_splits option.splits bucket_hit.splits
          dest!: then_do_SomeD)
  next
    case False
    with owned assms show ?thesis
      by (auto simp add: Let_def split: if_splits dest!: then_do_SomeD)
  qed
next
  case free: False
  show ?thesis
  proof (cases "tx_irrevocable tx = 0 \<and>
           tx_end tx < LOCK_GET_TIMESTAMP (locks g (GET_LOCK addr)) \<and>
           stm_has_read tx (GET_LOCK addr) \<noteq> None")
    case True
    with free assms show ?thesis
      by (auto simp add: Let_def dest!: then_do_SomeD)
  next
    case False
    with free assms have
      "then_do (extend_ws_if_full n K tx g)
         (\<lambda>_ tx1 g1.
            let w = entry_ptr K tx1 (unat (w_nb_entries tx1)) in
            case ATOMIC_CAS_FULL (GET_LOCK addr) (locks g (GET_LOCK addr))
                (LOCK_SET_ADDR_WRITE w) g1 of
              (False, g2) \<Rightarrow> stm_wbetl_write n K tx1 g2 addr value msk
            | (True, g2) \<Rightarrow>
                do_write K tx1 g2 addr value msk (GET_LOCK addr)
                  (LOCK_GET_TIMESTAMP (locks g (GET_LOCK addr))) w NULL) =
       Some (Return r tx' g')"
      by (auto simp add: Let_def)
    from then_do_SomeD [OF this] free False show ?thesis
      by (auto simp add: Let_def ATOMIC_CAS_FULL_def split: if_splits)
  qed
qed

lemma extend_ws_if_full_keeps_inactive:
  assumes "extend_ws_if_full n K tx g = Some (Return v tx1 g1)" "\<not> IS_ACTIVE (tx_status tx)"
  shows "\<not> IS_ACTIVE (tx_status tx1)"
  using extend_ws_if_full_ReturnD [OF assms(1)] assms(2)
  by (auto simp add: not_active_aborted)

lemma stm_wbetl_write_keeps_inactive:
  "\<not> IS_ACTIVE (tx_status tx) \<Longrightarrow>
   stm_wbetl_write n K tx g addr value msk = Some (Return r tx' g') \<Longrightarrow>
   \<not> IS_ACTIVE (tx_status tx')"
proof (induction n arbitrary: tx g)
  case 0
  then show ?case by simp
next
  case (Suc n)
  from stm_wbetl_write_Suc_ReturnD [OF Suc.prems(2)] show ?case
  proof (elim disjE conjE exE)
    assume "tx' = tx"
    with Suc.prems(1) show ?thesis by simp
  next
    fix prev
    assume "merge_into_entry K tx g addr value msk prev = Some (Return r tx' g')"
    from merge_into_entry_ReturnD [OF this] Suc.prems(1) show ?thesis by simp
  next
    fix prev j v tx1 g1
    assume e: "extend_ws_if_full n K tx g = Some (Return v tx1 g1)"
      and d: "do_write K tx1 g1 addr value msk (GET_LOCK addr) (w_version (w_cells tx ! j))
             (entry_ptr K tx1 (unat (w_nb_entries tx1))) prev = Some (Return r tx' g')"
    from e Suc.prems(1) have "\<not> IS_ACTIVE (tx_status tx1)"
      by (rule extend_ws_if_full_keeps_inactive)
    with do_write_ReturnD [OF d] show ?thesis by simp
  next
    assume "stm_wbetl_write n K tx g addr value msk = Some (Return r tx' g')"
    with Suc.prems(1) show ?thesis by (rule Suc.IH)
  next
    assume "stm_rollback n K tx g (STM_ABORT_WW_CONFLICT K) = Some (Return () tx' g')"
    then have "tx_status tx' = TX_ABORTED" by (rule stm_rollback_Return_aborted)
    then show ?thesis by (simp add: not_active_aborted)
  next
    assume "stm_rollback n K tx g (STM_ABORT_VAL_WRITE K) = Some (Return () tx' g')"
    then have "tx_status tx' = TX_ABORTED" by (rule stm_rollback_Return_aborted)
    then show ?thesis by (simp add: not_active_aborted)
  next
    fix v tx1 g1
    assume e: "extend_ws_if_full n K tx g = Some (Return v tx1 g1)"
      and d: "do_write K tx1
              (ATOMIC_STORE_LOCK (GET_LOCK addr)
                 (LOCK_SET_ADDR_WRITE (entry_ptr K tx1 (unat (w_nb_entries tx1)))) g1)
              addr value msk (GET_LOCK addr) (LOCK_GET_TIMESTAMP (locks g (GET_LOCK addr)))
              (entry_ptr K tx1 (unat (w_nb_entries tx1))) NULL = Some (Return r tx' g')"
    from e Suc.prems(1) have "\<not> IS_ACTIVE (tx_status tx1)"
      by (rule extend_ws_if_full_keeps_inactive)
    with do_write_ReturnD [OF d] show ?thesis by simp
  next
    fix v tx1 g1
    assume e: "extend_ws_if_full n K tx g = Some (Return v tx1 g1)"
      and d: "stm_wbetl_write n K tx1 g1 addr value msk = Some (Return r tx' g')"
    from e Suc.prems(1) have "\<not> IS_ACTIVE (tx_status tx1)"
      by (rule extend_ws_if_full_keeps_inactive)
    then show ?thesis using d by (rule Suc.IH)
  qed
qed

subsection \<open>Reading back a store\<close>

lemma ws_linked_next:
  assumes "ws_linked K tx" "i < unat (w_nb_entries tx)" "w_next (w_cells tx ! i) \<noteq> NULL"
  obtains j where "entry_idx K tx (w_next (w_cells tx ! i)) = Some j" "i < j"
    "j < unat (w_nb_entries tx)"
  using assms by (auto simp add: ws_linked_def split: option.splits)

lemma entry_idx_same_layout:
  assumes "w_entries tx' = w_entries tx" "length (w_cells tx') = length (w_cells tx)"
  shows "entry_idx K tx' p = entry_idx K tx p"
  using assms by (simp add: entry_idx_def)

lemma in_w_set_idx_less:
  assumes "layout_ok K tx" "in_w_set K tx p" "entry_idx K tx p = Some i"
  shows "i < unat (w_nb_entries tx)"
proof -
  from entry_idx_SomeD [OF assms(3)] have p: "p = entry_ptr K tx i" and i: "i < length (w_cells tx)"
    by simp_all
  from assms(1) i have "i \<le> unat (w_size tx)"
    by (simp add: layout_ok_def)
  with assms(1) have "in_w_set K tx (entry_ptr K tx i) \<longleftrightarrow> i < unat (w_nb_entries tx)"
    by (rule in_w_set_entry_ptr)
  with assms(2) p show ?thesis
    by simp
qed

lemma write_bucket_loop_LastD:
  "write_bucket_loop n K tx a p0 = Some (Last_entry p) \<Longrightarrow>
   \<exists>j. entry_idx K tx p = Some j \<and> w_next (w_cells tx ! j) = NULL \<and> w_addr (w_cells tx ! j) \<noteq> a"
  by (induction n K tx a p0 rule: write_bucket_loop.induct)
    (auto simp add: Let_def split: option.splits if_splits)

lemma write_bucket_loop_SameD:
  "write_bucket_loop n K tx a p0 = Some (Same_addr p) \<Longrightarrow>
   \<exists>j. entry_idx K tx p = Some j \<and> w_addr (w_cells tx ! j) = a"
  by (induction n K tx a p0 rule: write_bucket_loop.induct)
    (auto simp add: Let_def split: option.splits if_splits)

lemma read_after_merge:
  assumes "ws_linked K tx"
    and "w_entries tx' = w_entries tx"
    and "w_cells tx' = (w_cells tx)[i := e']"
    and "w_addr e' = w_addr (w_cells tx ! i)" "w_next e' = w_next (w_cells tx ! i)"
    and "entry_idx K tx p = Some i"
  shows "write_bucket_loop n K tx a p0 = Some (Same_addr p) \<Longrightarrow>
    entry_idx K tx p0 = Some i0 \<Longrightarrow> i0 < unat (w_nb_entries tx) \<Longrightarrow>
    unat (w_nb_entries tx) - i0 \<le> m \<Longrightarrow>
    read_bucket_loop m K tx' g a p0 =
      Some (Return (if w_mask e' = 0 then memory g a else w_value e') tx' g)"
proof (induction n arbitrary: p0 i0 m)
  case 0
  then show ?case by simp
next
  case (Suc n)
  have idx: "entry_idx K tx' q = entry_idx K tx q" for q
    by (rule entry_idx_same_layout) (simp_all add: assms(2,3))
  from Suc.prems(3,4) obtain m' where m: "m = Suc m'"
    by (cases m) auto
  from entry_idx_SomeD [OF Suc.prems(2)] have i0: "i0 < length (w_cells tx)"
    by simp
  show ?case
  proof (cases "a = w_addr (w_cells tx ! i0)")
    case True
    with Suc.prems(1,2) have "p = p0"
      by (simp add: Let_def)
    with assms(6) Suc.prems(2) have "i = i0"
      by simp
    with True i0 assms(3,4) show ?thesis
      by (simp add: m idx Suc.prems(2) Let_def)
  next
    case False
    with Suc.prems(1,2) have nn: "w_next (w_cells tx ! i0) \<noteq> NULL"
      and rec: "write_bucket_loop n K tx a (w_next (w_cells tx ! i0)) = Some (Same_addr p)"
      by (auto simp add: Let_def split: if_splits)
    from assms(1) Suc.prems(3) nn obtain j where
      j: "entry_idx K tx (w_next (w_cells tx ! i0)) = Some j" "i0 < j"
      "j < unat (w_nb_entries tx)"
      by (rule ws_linked_next)
    from j(2) Suc.prems(4) m have "unat (w_nb_entries tx) - j \<le> m'"
      by simp
    with rec j(1,3) have
      ih: "read_bucket_loop m' K tx' g a (w_next (w_cells tx ! i0)) =
        Some (Return (if w_mask e' = 0 then memory g a else w_value e') tx' g)"
      by (rule Suc.IH)
    have cell: "w_addr (w_cells tx' ! i0) = w_addr (w_cells tx ! i0) \<and>
        w_next (w_cells tx' ! i0) = w_next (w_cells tx ! i0)"
      using assms(3,4,5) i0 by (cases "i0 = i") simp_all
    with False nn ih show ?thesis
      by (simp add: m idx Suc.prems(2) Let_def)
  qed
qed

lemma nb_room:
  fixes nb sz :: uint
  assumes "nb \<le> sz" "nb \<noteq> sz"
  shows "unat nb < unat sz" "unat (nb + 1) = Suc (unat nb)" "nb + 1 \<le> sz"
  using assms by unat_arith+

lemma or_mask_nonzero: "(x :: stm_word_t) OR m = 0 \<Longrightarrow> m = 0"
  by (simp add: or_eq_0_iff)

lemma merge_bits: "(((x :: stm_word_t) AND NOT m) OR (v AND m)) AND m = v AND m"
  by (rule bit_word_eqI) (auto simp add: bit_and_iff bit_or_iff bit_not_iff)

lemma merge_full: "(((x :: stm_word_t) AND NOT (NOT 0)) OR (v AND NOT 0)) = v"
  by simp

lemma lock_write_owned: "LOCK_GET_WRITE (LOCK_SET_ADDR_WRITE a) \<noteq> 0"
  using owned_bit_set [of a]
  by (simp add: LOCK_GET_WRITE_def LOCK_GET_OWNED_def OWNED_MASK_def)

lemma write_bucket_loop_start:
  "write_bucket_loop n K tx a p0 = Some (Same_addr p) \<or>
   write_bucket_loop n K tx a p0 = Some (Last_entry p) \<Longrightarrow>
   \<exists>i0. entry_idx K tx p0 = Some i0"
  by (cases n) (auto split: option.splits)

lemma new_entry_simps:
  "w_addr (new_entry g addr value msk lock version) = addr"
  "w_mask (new_entry g addr value msk lock version) = msk"
  "w_version (new_entry g addr value msk lock version) = version"
  "w_lock (new_entry g addr value msk lock version) = lock"
  "w_next (new_entry g addr value msk lock version) = NULL"
  by (simp_all add: new_entry_def)

lemma new_entry_value:
  "msk \<noteq> 0 \<Longrightarrow> w_value (new_entry g addr value msk lock version) AND msk = value AND msk"
  "msk = NOT 0 \<Longrightarrow> w_value (new_entry g addr value msk lock version) = value"
  by (simp_all add: new_entry_def merge_bits)

lemma room_idx:
  assumes "layout_ok K tx" "w_nb_entries tx \<noteq> w_size tx"
  shows "unat (w_nb_entries tx) < unat (w_size tx)"
    "unat (w_nb_entries tx) < length (w_cells tx)"
    "unat (w_nb_entries tx + 1) = Suc (unat (w_nb_entries tx))"
    "w_nb_entries tx + 1 \<le> w_size tx"
    "entry_idx K tx (entry_ptr K tx (unat (w_nb_entries tx))) = Some (unat (w_nb_entries tx))"
proof -
  from assms have le: "w_nb_entries tx \<le> w_size tx"
    by (simp add: layout_ok_def)
  from le assms(2) show a: "unat (w_nb_entries tx) < unat (w_size tx)"
    by (rule nb_room)
  with assms(1) show "unat (w_nb_entries tx) < length (w_cells tx)"
    by (simp add: layout_ok_def)
  from le assms(2) show "unat (w_nb_entries tx + 1) = Suc (unat (w_nb_entries tx))"
    by (rule nb_room)
  from le assms(2) show "w_nb_entries tx + 1 \<le> w_size tx"
    by (rule nb_room)
  from assms(1) a show
    "entry_idx K tx (entry_ptr K tx (unat (w_nb_entries tx))) = Some (unat (w_nb_entries tx))"
    by (rule entry_idx_entry_ptr)
qed

lemma do_write_new_bucket:
  assumes "layout_ok K tx" "w_nb_entries tx \<noteq> w_size tx"
  shows "do_write K tx g addr value msk lock version
      (entry_ptr K tx (unat (w_nb_entries tx))) NULL =
    Some (Return (entry_ptr K tx (unat (w_nb_entries tx)))
      (tx\<lparr>w_cells := (w_cells tx)[unat (w_nb_entries tx) :=
            new_entry g addr value msk lock version],
          w_nb_entries := w_nb_entries tx + 1,
          w_has_writes := w_has_writes tx + 1\<rparr>) g)"
  by (simp add: do_write_def room_idx(5) [OF assms] new_entry_def Let_def)

lemma do_write_append:
  assumes "layout_ok K tx" "w_nb_entries tx \<noteq> w_size tx" "entry_idx K tx prev = Some j"
  shows "do_write K tx g addr value msk lock version
      (entry_ptr K tx (unat (w_nb_entries tx))) prev =
    Some (Return (entry_ptr K tx (unat (w_nb_entries tx)))
      (tx\<lparr>w_cells := ((w_cells tx)[unat (w_nb_entries tx) :=
            new_entry g addr value msk lock version])
            [j := ((w_cells tx)[unat (w_nb_entries tx) :=
                new_entry g addr value msk lock version] ! j)
              \<lparr>w_next := entry_ptr K tx (unat (w_nb_entries tx))\<rparr>],
          w_nb_entries := w_nb_entries tx + 1,
          w_has_writes := w_has_writes tx + 1\<rparr>) g)"
proof -
  let ?tx1 = "tx\<lparr>w_cells := (w_cells tx)[unat (w_nb_entries tx) :=
            new_entry g addr value msk lock version]\<rparr>"
  from entry_idx_SomeD [OF assms(3)] have p: "prev = entry_ptr K tx j" "j < length (w_cells tx)"
    by simp_all
  with assms(1) have "j \<le> unat (w_size tx)"
    by (simp add: layout_ok_def)
  with assms(1) have "entry_ptr K tx j \<noteq> NULL"
    by (rule entry_ptr_not_null)
  with p have nn: "prev \<noteq> NULL"
    by simp
  have "entry_idx K ?tx1 prev = entry_idx K tx prev"
    by (rule entry_idx_same_layout) simp_all
  with assms(3) have j: "entry_idx K ?tx1 prev = Some j"
    by simp
  from j nn show ?thesis
    by (simp add: do_write_def room_idx(5) [OF assms(1,2)] new_entry_def Let_def)
qed

lemma layout_ok_after_insert:
  assumes "layout_ok K tx" "w_nb_entries tx \<noteq> w_size tx"
    and "w_entries tx' = w_entries tx" "w_size tx' = w_size tx"
    and "length (w_cells tx') = length (w_cells tx)"
    and "w_nb_entries tx' = w_nb_entries tx + 1"
  shows "layout_ok K tx'"
  using assms room_idx(4) [OF assms(1,2)] by (simp add: layout_ok_def)

lemma write_bucket_loop_fuel:
  "write_bucket_loop n K tx a p0 = Some x \<Longrightarrow> write_bucket_loop (n + k) K tx a p0 = Some x"
proof (induction n arbitrary: p0)
  case 0
  then show ?case by simp
next
  case (Suc n)
  show ?case
  proof (cases "entry_idx K tx p0")
    case None
    with Suc.prems show ?thesis by simp
  next
    case (Some i)
    show ?thesis
    proof (cases "a = w_addr (w_cells tx ! i) \<or> w_next (w_cells tx ! i) = NULL")
      case True
      with Suc.prems Some show ?thesis
        by (auto simp add: Let_def)
    next
      case False
      with Suc.prems Some have "write_bucket_loop n K tx a (w_next (w_cells tx ! i)) = Some x"
        by (simp add: Let_def)
      then have "write_bucket_loop (n + k) K tx a (w_next (w_cells tx ! i)) = Some x"
        by (rule Suc.IH)
      with False Some show ?thesis
        by (simp add: Let_def)
    qed
  qed
qed

lemma write_bucket_loop_same:
  assumes "write_bucket_loop n K tx a p0 = Some x" "write_bucket_loop n' K tx a p0 = Some y"
  shows "x = y"
proof (cases "n \<le> n'")
  case True
  then obtain k where "n' = n + k"
    by (auto simp add: le_iff_add)
  with write_bucket_loop_fuel [OF assms(1), of k] assms(2) show ?thesis
    by simp
next
  case False
  then obtain k where "n = n' + k"
    by (metis le_iff_add nat_le_linear)
  with write_bucket_loop_fuel [OF assms(2), of k] assms(1) show ?thesis
    by simp
qed

lemma write_bucket_loop_stable:
  assumes W: "ws_linked K tx"
    and same: "w_entries tx' = w_entries tx" "length (w_cells tx') = length (w_cells tx)"
    and ad: "\<And>k. k < unat (w_nb_entries tx) \<Longrightarrow>
      w_addr (w_cells tx' ! k) = w_addr (w_cells tx ! k)"
    and nx: "\<And>k. k < unat (w_nb_entries tx) \<Longrightarrow> w_next (w_cells tx ! k) \<noteq> NULL \<Longrightarrow>
      w_next (w_cells tx' ! k) = w_next (w_cells tx ! k)"
  shows "write_bucket_loop n K tx a p0 = Some (Same_addr p) \<Longrightarrow>
    entry_idx K tx p0 = Some i0 \<Longrightarrow> i0 < unat (w_nb_entries tx) \<Longrightarrow>
    write_bucket_loop n K tx' a p0 = Some (Same_addr p) \<and>
    (\<exists>i. entry_idx K tx p = Some i \<and> i < unat (w_nb_entries tx))"
proof (induction n arbitrary: p0 i0)
  case 0
  then show ?case by simp
next
  case (Suc n)
  have idx: "entry_idx K tx' q = entry_idx K tx q" for q
    using same by (rule entry_idx_same_layout)
  show ?case
  proof (cases "a = w_addr (w_cells tx ! i0)")
    case True
    with Suc.prems(1,2) have "p = p0"
      by (simp add: Let_def)
    with True Suc.prems(2,3) ad [OF Suc.prems(3)] show ?thesis
      by (simp add: idx Let_def)
  next
    case False
    with Suc.prems(1,2) have nn: "w_next (w_cells tx ! i0) \<noteq> NULL"
      and rec: "write_bucket_loop n K tx a (w_next (w_cells tx ! i0)) = Some (Same_addr p)"
      by (auto simp add: Let_def split: if_splits)
    from W Suc.prems(3) nn obtain j where
      j: "entry_idx K tx (w_next (w_cells tx ! i0)) = Some j" "i0 < j"
      "j < unat (w_nb_entries tx)"
      by (rule ws_linked_next)
    from rec j(1,3) have
      ih: "write_bucket_loop n K tx' a (w_next (w_cells tx ! i0)) = Some (Same_addr p) \<and>
        (\<exists>i. entry_idx K tx p = Some i \<and> i < unat (w_nb_entries tx))"
      by (rule Suc.IH)
    with False nn ad [OF Suc.prems(3)] nx [OF Suc.prems(3) nn] show ?thesis
      by (simp add: idx Suc.prems(2) Let_def)
  qed
qed

lemma search_after_append:
  assumes "ws_linked K tx"
    and "w_entries tx' = w_entries tx"
    and "w_cells tx' = ((w_cells tx)[nb := e])[j := ((w_cells tx)[nb := e] ! j)\<lparr>w_next := w\<rparr>]"
    and "nb = unat (w_nb_entries tx)" "nb < length (w_cells tx)"
    and "entry_idx K tx w = Some nb" "w \<noteq> NULL"
    and "entry_idx K tx p = Some j" "w_next (w_cells tx ! j) = NULL"
    and "w_addr e = a"
  shows "write_bucket_loop n K tx a p0 = Some (Last_entry p) \<Longrightarrow>
    entry_idx K tx p0 = Some i0 \<Longrightarrow> i0 < nb \<Longrightarrow>
    write_bucket_loop (Suc n) K tx' a p0 = Some (Same_addr w) \<and> j < nb"
proof (induction n arbitrary: p0 i0)
  case 0
  then show ?case by simp
next
  case (Suc n)
  have idx: "entry_idx K tx' q = entry_idx K tx q" for q
    by (rule entry_idx_same_layout) (simp_all add: assms(2,3))
  from entry_idx_SomeD [OF Suc.prems(2)] have i0: "i0 < length (w_cells tx)"
    by simp
  from Suc.prems(1,2) have na: "a \<noteq> w_addr (w_cells tx ! i0)"
    by (auto simp add: Let_def split: if_splits)
  show ?case
  proof (cases "w_next (w_cells tx ! i0) = NULL")
    case True
    with Suc.prems(1,2) na have "p = p0"
      by (simp add: Let_def)
    with assms(8) Suc.prems(2) have ji: "j = i0"
      by simp
    with Suc.prems(3) have jn: "j \<noteq> nb" "j < length (w_cells tx)"
      using i0 by simp_all
    from assms(3,5) jn ji have
      c1: "w_cells tx' ! i0 = (w_cells tx ! i0)\<lparr>w_next := w\<rparr>" and c2: "w_cells tx' ! nb = e"
      by simp_all
    from c1 c2 na assms(6,7,10) ji Suc.prems(3) show ?thesis
      by (simp add: idx Suc.prems(2) Let_def)
  next
    case False
    with Suc.prems(1,2) na have
      rec: "write_bucket_loop n K tx a (w_next (w_cells tx ! i0)) = Some (Last_entry p)"
      by (auto simp add: Let_def split: if_splits)
    from assms(1) Suc.prems(3) False obtain i1 where
      i1: "entry_idx K tx (w_next (w_cells tx ! i0)) = Some i1" "i0 < i1"
      "i1 < unat (w_nb_entries tx)"
      unfolding assms(4) by (rule ws_linked_next)
    from rec i1(1) i1(3) have
      ih: "write_bucket_loop (Suc n) K tx' a (w_next (w_cells tx ! i0)) = Some (Same_addr w) \<and>
        j < nb"
      unfolding assms(4) [symmetric] by (rule Suc.IH)
    from False assms(9) have "i0 \<noteq> j"
      by auto
    with assms(3) Suc.prems(3) i0 have "w_cells tx' ! i0 = w_cells tx ! i0"
      by simp
    with False na ih show ?thesis
      by (simp add: idx Suc.prems(2) Let_def del: write_bucket_loop.simps(2))
        (simp add: idx Suc.prems(2) Let_def)
  qed
qed

lemma disjoint_mask_keeps:
  fixes x :: stm_word_t
  assumes "m2 AND msk = 0"
  shows "((x AND NOT m2) OR (v2 AND m2)) AND msk = x AND msk"
proof (rule bit_word_eqI)
  fix n assume n: "n < LENGTH(64)"
  have "\<not> bit (m2 AND msk) n"
    by (simp add: assms)
  then have "\<not> (bit m2 n \<and> bit msk n)"
    by (simp add: bit_and_iff)
  with n show "bit (((x AND NOT m2) OR (v2 AND m2)) AND msk) n = bit (x AND msk) n"
    by (auto simp add: bit_and_iff bit_or_iff bit_not_iff)
qed

lemma written_stable:
  assumes wr: "written K tx g addr value msk r"
    and W: "ws_linked K tx"
    and same: "w_entries tx' = w_entries tx" "length (w_cells tx') = length (w_cells tx)"
    and nb: "unat (w_nb_entries tx) \<le> unat (w_nb_entries tx')"
    and ad: "\<And>k. k < unat (w_nb_entries tx) \<Longrightarrow>
      w_addr (w_cells tx' ! k) = w_addr (w_cells tx ! k)"
    and nx: "\<And>k. k < unat (w_nb_entries tx) \<Longrightarrow> w_next (w_cells tx ! k) \<noteq> NULL \<Longrightarrow>
      w_next (w_cells tx' ! k) = w_next (w_cells tx ! k)"
    and vl: "\<And>k. k < unat (w_nb_entries tx) \<Longrightarrow> w_addr (w_cells tx ! k) = addr \<Longrightarrow>
      w_mask (w_cells tx ! k) \<noteq> 0 \<Longrightarrow>
      w_mask (w_cells tx' ! k) \<noteq> 0 \<and>
      w_value (w_cells tx' ! k) AND msk = w_value (w_cells tx ! k) AND msk"
    and lk: "locks g' (GET_LOCK addr) = locks g (GET_LOCK addr)"
  shows "written K tx' g' addr value msk r"
proof -
  let ?h = "LOCK_GET_ADDR (locks g (GET_LOCK addr))"
  from wr obtain n i0 i where own: "LOCK_GET_OWNED (locks g (GET_LOCK addr)) \<noteq> 0"
    and i0: "entry_idx K tx ?h = Some i0" "i0 < unat (w_nb_entries tx)"
    and s: "write_bucket_loop n K tx addr ?h = Some (Same_addr r)"
    and i: "entry_idx K tx r = Some i" "w_mask (w_cells tx ! i) \<noteq> 0"
      "w_value (w_cells tx ! i) AND msk = value AND msk"
    unfolding written_def by blast
  have idx: "entry_idx K tx' q = entry_idx K tx q" for q
    using same by (rule entry_idx_same_layout)
  from write_bucket_loop_stable [OF W same ad nx s i0] i(1)
  have s': "write_bucket_loop n K tx' addr ?h = Some (Same_addr r)"
    and il: "i < unat (w_nb_entries tx)"
    by auto
  from write_bucket_loop_SameD [OF s] i(1) have "w_addr (w_cells tx ! i) = addr"
    by auto
  from vl [OF il this i(2)] i(3) have v': "w_mask (w_cells tx' ! i) \<noteq> 0"
    "w_value (w_cells tx' ! i) AND msk = value AND msk"
    by simp_all
  from i0(2) nb have "i0 < unat (w_nb_entries tx')"
    by simp
  with own i0(1) s' i(1) v' show ?thesis
    unfolding written_def lk idx by blast
qed

lemma ws_linked_same:
  assumes W: "ws_linked K tx"
    and same: "w_entries tx' = w_entries tx" "length (w_cells tx') = length (w_cells tx)"
      "w_nb_entries tx' = w_nb_entries tx"
    and nx: "\<And>k. k < unat (w_nb_entries tx) \<Longrightarrow>
      w_next (w_cells tx' ! k) = w_next (w_cells tx ! k)"
  shows "ws_linked K tx'"
proof -
  have idx: "entry_idx K tx' q = entry_idx K tx q" for q
    using same(1,2) by (rule entry_idx_same_layout)
  show ?thesis
    unfolding ws_linked_def idx same(3)
  proof (intro allI impI)
    fix i assume i: "i < unat (w_nb_entries tx)"
    with W have "w_next (w_cells tx ! i) = NULL \<or>
        (case entry_idx K tx (w_next (w_cells tx ! i)) of None \<Rightarrow> False
         | Some j \<Rightarrow> i < j \<and> j < unat (w_nb_entries tx))"
      unfolding ws_linked_def by blast
    with nx [OF i] show "w_next (w_cells tx' ! i) = NULL \<or>
        (case entry_idx K tx (w_next (w_cells tx' ! i)) of None \<Rightarrow> False
         | Some j \<Rightarrow> i < j \<and> j < unat (w_nb_entries tx))"
      by simp
  qed
qed

lemma ws_linked_grow:
  assumes W: "ws_linked K tx" and L: "layout_ok K tx" and room: "w_nb_entries tx \<noteq> w_size tx"
    and same: "w_entries tx' = w_entries tx" "length (w_cells tx') = length (w_cells tx)"
      "w_nb_entries tx' = w_nb_entries tx + 1"
    and nx: "\<And>k. k < unat (w_nb_entries tx) \<Longrightarrow> k \<noteq> j \<Longrightarrow>
      w_next (w_cells tx' ! k) = w_next (w_cells tx ! k)"
    and nj: "j < unat (w_nb_entries tx) \<Longrightarrow>
      w_next (w_cells tx' ! j) = entry_ptr K tx (unat (w_nb_entries tx)) \<or>
      w_next (w_cells tx' ! j) = w_next (w_cells tx ! j)"
    and nn: "w_next (w_cells tx' ! unat (w_nb_entries tx)) = NULL"
  shows "ws_linked K tx'"
proof -
  let ?nb = "unat (w_nb_entries tx)"
  have idx: "entry_idx K tx' q = entry_idx K tx q" for q
    using same(1,2) by (rule entry_idx_same_layout)
  from room_idx [OF L room] have N: "unat (w_nb_entries tx + 1) = Suc ?nb"
    and pn: "entry_idx K tx (entry_ptr K tx ?nb) = Some ?nb"
    by simp_all
  have old: "w_next (w_cells tx ! i) = NULL \<or>
        (case entry_idx K tx (w_next (w_cells tx ! i)) of None \<Rightarrow> False
         | Some j \<Rightarrow> i < j \<and> j < Suc ?nb)" if "i < ?nb" for i
  proof -
    from W that have "w_next (w_cells tx ! i) = NULL \<or>
        (case entry_idx K tx (w_next (w_cells tx ! i)) of None \<Rightarrow> False
         | Some j \<Rightarrow> i < j \<and> j < ?nb)"
      unfolding ws_linked_def by blast
    then show ?thesis
      by (auto split: option.splits)
  qed
  show ?thesis
    unfolding ws_linked_def idx same(3) N
  proof (intro allI impI)
    fix i assume "i < Suc ?nb"
    then consider "i = ?nb" | "i < ?nb" "i = j" | "i < ?nb" "i \<noteq> j"
      by fastforce
    then show "w_next (w_cells tx' ! i) = NULL \<or>
        (case entry_idx K tx (w_next (w_cells tx' ! i)) of None \<Rightarrow> False
         | Some j \<Rightarrow> i < j \<and> j < Suc ?nb)"
    proof cases
      case 1
      with nn show ?thesis by simp
    next
      case 2
      with nj have "w_next (w_cells tx' ! i) = entry_ptr K tx ?nb \<or>
          w_next (w_cells tx' ! i) = w_next (w_cells tx ! i)"
        by simp
      then show ?thesis
      proof
        assume "w_next (w_cells tx' ! i) = entry_ptr K tx ?nb"
        with pn 2(1) show ?thesis by simp
      next
        assume "w_next (w_cells tx' ! i) = w_next (w_cells tx ! i)"
        with old [OF 2(1)] show ?thesis by simp
      qed
    next
      case 3
      with nx [OF 3] old [OF 3(1)] show ?thesis by simp
    qed
  qed
qed

lemma merge_into_entry_result:
  assumes "merge_into_entry K tx g addr value msk prev = Some (Return r tx' g')"
  shows "\<exists>j e. entry_idx K tx prev = Some j \<and> r = prev \<and> g' = g \<and>
    tx' = tx\<lparr>w_cells := (w_cells tx)[j := e]\<rparr> \<and>
    w_addr e = w_addr (w_cells tx ! j) \<and> w_next e = w_next (w_cells tx ! j) \<and>
    w_mask e = w_mask (w_cells tx ! j) OR msk \<and>
    w_value e AND msk = value AND msk \<and>
    (w_mask (w_cells tx ! j) \<noteq> 0 \<longrightarrow>
       (\<forall>m. msk AND m = 0 \<longrightarrow> w_value e AND m = w_value (w_cells tx ! j) AND m))"
proof -
  from assms obtain j where j: "entry_idx K tx prev = Some j"
    by (auto simp add: merge_into_entry_def split: option.splits)
  let ?c = "w_cells tx ! j"
  show ?thesis
  proof (cases "msk = NOT 0")
    case True
    let ?e = "?c\<lparr>w_value := value, w_mask := w_mask ?c OR msk\<rparr>"
    from assms j True have "r = prev \<and> g' = g \<and> tx' = tx\<lparr>w_cells := (w_cells tx)[j := ?e]\<rparr>"
      by (auto simp add: merge_into_entry_def Let_def)
    moreover have "w_value ?e AND m = w_value ?c AND m" if "msk AND m = 0" for m
      using that True by simp
    ultimately show ?thesis
      using j by (intro exI [of _ j] exI [of _ ?e]) simp
  next
    case False
    let ?old = "if w_mask ?c = 0 then memory g addr else w_value ?c"
    let ?e = "?c\<lparr>w_value := (?old AND NOT msk) OR (value AND msk), w_mask := w_mask ?c OR msk\<rparr>"
    from assms j False have "r = prev \<and> g' = g \<and> tx' = tx\<lparr>w_cells := (w_cells tx)[j := ?e]\<rparr>"
      by (auto simp add: merge_into_entry_def Let_def)
    moreover have "w_value ?e AND m = w_value ?c AND m"
      if "w_mask ?c \<noteq> 0" "msk AND m = 0" for m
      using that by (simp add: disjoint_mask_keeps)
    moreover have "w_value ?e AND msk = value AND msk"
      by (simp add: merge_bits)
    ultimately show ?thesis
      using j by (intro exI [of _ j] exI [of _ ?e]) simp
  qed
qed

lemma merge_step:
  assumes L: "layout_ok K tx" and W: "ws_linked K tx"
    and own: "LOCK_GET_OWNED (locks g (GET_LOCK a2)) \<noteq> 0"
    and inw: "in_w_set K tx (LOCK_GET_ADDR (locks g (GET_LOCK a2)))"
    and S: "write_bucket_loop n K tx a2 (LOCK_GET_ADDR (locks g (GET_LOCK a2))) =
      Some (Same_addr prev)"
    and Mg: "merge_into_entry K tx g a2 v2 m2 prev = Some (Return r2 tx' g')"
  shows "layout_ok K tx'" and "ws_linked K tx'"
    and "m2 \<noteq> 0 \<Longrightarrow> written K tx' g' a2 v2 m2 r2"
    and "written K tx g addr value msk r \<Longrightarrow> (a2 = addr \<longrightarrow> m2 AND msk = 0) \<Longrightarrow>
      written K tx' g' addr value msk r"
proof -
  let ?h = "LOCK_GET_ADDR (locks g (GET_LOCK a2))"
  let ?c = "w_cells tx"
  from merge_into_entry_result [OF Mg] obtain j e where
    j: "entry_idx K tx prev = Some j" and r2: "r2 = prev" and g': "g' = g"
    and tx': "tx' = tx\<lparr>w_cells := ?c[j := e]\<rparr>"
    and ea: "w_addr e = w_addr (?c ! j)" and en: "w_next e = w_next (?c ! j)"
    and em: "w_mask e = w_mask (?c ! j) OR m2" and ev: "w_value e AND m2 = v2 AND m2"
    and ek: "w_mask (?c ! j) \<noteq> 0 \<longrightarrow>
       (\<forall>m. m2 AND m = 0 \<longrightarrow> w_value e AND m = w_value (?c ! j) AND m)"
    by blast
  from entry_idx_SomeD [OF j] have jl: "j < length ?c"
    by simp
  from write_bucket_loop_SameD [OF S] j have ja: "w_addr (?c ! j) = a2"
    by auto
  have same: "w_entries tx' = w_entries tx" "length (w_cells tx') = length ?c"
    "w_nb_entries tx' = w_nb_entries tx"
    by (simp_all add: tx')
  have cell: "w_cells tx' ! k = (if k = j then e else ?c ! k)" for k
    using jl by (simp add: tx' nth_list_update)
  have ad: "w_addr (w_cells tx' ! k) = w_addr (?c ! k)" for k
    by (simp add: cell ea)
  have nx: "w_next (w_cells tx' ! k) = w_next (?c ! k)" for k
    by (simp add: cell en)
  from L show L': "layout_ok K tx'"
    by (simp add: layout_ok_def tx')
  from W same nx show W': "ws_linked K tx'"
    by (rule ws_linked_same)
  have idx: "entry_idx K tx' q = entry_idx K tx q" for q
    using same(1,2) by (rule entry_idx_same_layout)
  from write_bucket_loop_start [of n K tx a2 ?h prev] S obtain i0 where
    i0: "entry_idx K tx ?h = Some i0"
    by blast
  from L inw i0 have i0l: "i0 < unat (w_nb_entries tx)"
    by (rule in_w_set_idx_less)
  from write_bucket_loop_stable [OF W same(1,2) ad nx S i0 i0l]
  have S': "write_bucket_loop n K tx' a2 ?h = Some (Same_addr prev)"
    by simp
  show "written K tx' g' a2 v2 m2 r2" if "m2 \<noteq> 0"
  proof -
    from that em have "w_mask e \<noteq> 0"
      using or_mask_nonzero [of "w_mask (?c ! j)" m2] by auto
    with own i0 i0l S' j ev show ?thesis
      unfolding written_def g' r2 idx same(3) by (auto simp add: cell)
  qed
  show "written K tx' g' addr value msk r"
    if wr: "written K tx g addr value msk r" and dj: "a2 = addr \<longrightarrow> m2 AND msk = 0"
    using wr W same(1,2)
  proof (rule written_stable)
    show "unat (w_nb_entries tx) \<le> unat (w_nb_entries tx')"
      by (simp add: same)
    show "w_addr (w_cells tx' ! k) = w_addr (?c ! k)" for k
      by (rule ad)
    show "w_next (w_cells tx' ! k) = w_next (?c ! k)" for k
      by (rule nx)
    show "locks g' (GET_LOCK addr) = locks g (GET_LOCK addr)"
      by (simp add: g')
    show "w_mask (w_cells tx' ! k) \<noteq> 0 \<and>
      w_value (w_cells tx' ! k) AND msk = w_value (?c ! k) AND msk"
      if k: "w_addr (?c ! k) = addr" "w_mask (?c ! k) \<noteq> 0" for k
    proof (cases "k = j")
      case False
      with k show ?thesis by (simp add: cell)
    next
      case True
      with k ja have "a2 = addr" by simp
      with dj have d: "m2 AND msk = 0" by simp
      from k(2) True em have "w_mask e \<noteq> 0"
        using or_mask_nonzero [of "w_mask (?c ! j)" "m2"] 
        by (metis or.commute or_mask_nonzero)
      moreover from ek k(2) True d have "w_value e AND msk = w_value (?c ! j) AND msk"
        by simp
      ultimately show ?thesis
        using True by (simp add: cell)
    qed
  qed
qed

lemma append_step:
  assumes L: "layout_ok K tx" and W: "ws_linked K tx"
    and own: "LOCK_GET_OWNED (locks g (GET_LOCK a2)) \<noteq> 0"
    and inw: "in_w_set K tx (LOCK_GET_ADDR (locks g (GET_LOCK a2)))"
    and S: "write_bucket_loop n K tx a2 (LOCK_GET_ADDR (locks g (GET_LOCK a2))) =
      Some (Last_entry prev)"
    and room: "w_nb_entries tx \<noteq> w_size tx"
    and D: "do_write K tx g a2 v2 m2 (GET_LOCK a2) version
        (entry_ptr K tx (unat (w_nb_entries tx))) prev = Some (Return r2 tx' g')"
  shows "layout_ok K tx'" and "ws_linked K tx'"
    and "m2 \<noteq> 0 \<Longrightarrow> written K tx' g' a2 v2 m2 r2"
    and "written K tx g addr value msk r \<Longrightarrow> written K tx' g' addr value msk r"
proof -
  let ?h = "LOCK_GET_ADDR (locks g (GET_LOCK a2))"
  let ?c = "w_cells tx"
  let ?nb = "unat (w_nb_entries tx)"
  let ?w = "entry_ptr K tx ?nb"
  let ?e = "new_entry g a2 v2 m2 (GET_LOCK a2) version"
  from write_bucket_loop_LastD [OF S] obtain j where
    j: "entry_idx K tx prev = Some j" "w_next (?c ! j) = NULL"
    by blast
  from room_idx [OF L room] have len: "?nb < length ?c"
    and N: "unat (w_nb_entries tx + 1) = Suc ?nb"
    and pn: "entry_idx K tx ?w = Some ?nb"
    by simp_all
  from L len have nn: "?w \<noteq> NULL"
    by (simp add: entry_ptr_not_null layout_ok_def)
  let ?T = "tx\<lparr>w_cells := (?c[?nb := ?e])[j := (?c[?nb := ?e] ! j)\<lparr>w_next := ?w\<rparr>],
          w_nb_entries := w_nb_entries tx + 1,
          w_has_writes := w_has_writes tx + 1\<rparr>"
  have A: "do_write K tx g a2 v2 m2 (GET_LOCK a2) version ?w prev = Some (Return ?w ?T g)"
    using L room j(1) by (rule do_write_append)
  note eq = trans [OF D [symmetric] A, unfolded option.inject outcome.inject]
  from eq have tx': "tx' = ?T" and g': "g' = g" and r2: "r2 = ?w"
    by blast+
  have same: "w_entries tx' = w_entries tx" "length (w_cells tx') = length ?c"
    "w_nb_entries tx' = w_nb_entries tx + 1" "w_size tx' = w_size tx"
    by (simp_all add: tx')
  have cells: "w_cells tx' = (?c[?nb := ?e])[j := (?c[?nb := ?e] ! j)\<lparr>w_next := ?w\<rparr>]"
    by (simp add: tx')
  have idx: "entry_idx K tx' q = entry_idx K tx q" for q
    using same(1,2) by (rule entry_idx_same_layout)
  from write_bucket_loop_start [of n K tx a2 ?h prev] S obtain i0 where
    i0: "entry_idx K tx ?h = Some i0"
    by blast
  from L inw i0 have i0l: "i0 < ?nb"
    by (rule in_w_set_idx_less)
  have "w_addr ?e = a2"
    by (simp add: new_entry_simps)
  from search_after_append [OF W same(1) cells refl len pn nn j this S i0 i0l]
  have S': "write_bucket_loop (Suc n) K tx' a2 ?h = Some (Same_addr ?w)" and jl: "j < ?nb"
    by simp_all
  from jl len have jlen: "j < length ?c" "j \<noteq> ?nb"
    by simp_all
  have old: "w_cells tx' ! k = (if k = j then (?c ! j)\<lparr>w_next := ?w\<rparr> else ?c ! k)"
    if "k < ?nb" for k
    using that jlen len by (simp add: cells nth_list_update)
  have new: "w_cells tx' ! ?nb = ?e"
    using jlen len by (simp add: cells nth_list_update)
  from L room same(1,4,2,3) show "layout_ok K tx'"
    by (rule layout_ok_after_insert)
  from W L room same(1,2,3) show "ws_linked K tx'"
  proof (rule ws_linked_grow)
    show "w_next (w_cells tx' ! k) = w_next (?c ! k)" if "k < ?nb" "k \<noteq> j" for k
      using that by (simp add: old)
    show "w_next (w_cells tx' ! j) = ?w \<or> w_next (w_cells tx' ! j) = w_next (?c ! j)"
      using jl by (simp add: old)
    show "w_next (w_cells tx' ! ?nb) = NULL"
      by (simp add: new new_entry_simps)
  qed
  show "written K tx' g' a2 v2 m2 r2" if "m2 \<noteq> 0"
  proof -
    from that have "w_mask ?e \<noteq> 0" "w_value ?e AND m2 = v2 AND m2"
      by (simp_all add: new_entry_simps new_entry_value)
    then have "entry_idx K tx' (LOCK_GET_ADDR (locks g' (GET_LOCK a2))) = Some i0 \<and>
        i0 < unat (w_nb_entries tx') \<and>
        write_bucket_loop (Suc n) K tx' a2 (LOCK_GET_ADDR (locks g' (GET_LOCK a2))) =
          Some (Same_addr r2) \<and>
        entry_idx K tx' r2 = Some ?nb \<and> w_mask (w_cells tx' ! ?nb) \<noteq> 0 \<and>
        w_value (w_cells tx' ! ?nb) AND m2 = v2 AND m2"
      using i0 i0l S' pn
      by (simp add: g' r2 idx same(3) N new del: write_bucket_loop.simps)
    moreover from own have "LOCK_GET_OWNED (locks g' (GET_LOCK a2)) \<noteq> 0"
      by (simp add: g')
    ultimately show ?thesis
      unfolding written_def by blast
  qed
  show "written K tx' g' addr value msk r" if wr: "written K tx g addr value msk r"
    using wr W same(1,2)
  proof (rule written_stable)
    show "?nb \<le> unat (w_nb_entries tx')"
      by (simp add: same N)
    show "w_addr (w_cells tx' ! k) = w_addr (?c ! k)" if "k < ?nb" for k
      using that by (simp add: old)
    show "w_next (w_cells tx' ! k) = w_next (?c ! k)"
      if "k < ?nb" "w_next (?c ! k) \<noteq> NULL" for k
      using that j(2) by (auto simp add: old)
    show "locks g' (GET_LOCK addr) = locks g (GET_LOCK addr)"
      by (simp add: g')
    show "w_mask (w_cells tx' ! k) \<noteq> 0 \<and>
      w_value (w_cells tx' ! k) AND msk = w_value (?c ! k) AND msk"
      if "k < ?nb" "w_mask (?c ! k) \<noteq> 0" for k
      using that by (auto simp add: old)
  qed
qed

lemma acquire_step:
  assumes L: "layout_ok K tx" and W: "ws_linked K tx"
    and free: "LOCK_GET_OWNED (locks g (GET_LOCK a2)) = 0"
    and room: "w_nb_entries tx \<noteq> w_size tx"
    and D: "do_write K tx
        (ATOMIC_STORE_LOCK (GET_LOCK a2)
           (LOCK_SET_ADDR_WRITE (entry_ptr K tx (unat (w_nb_entries tx)))) g)
        a2 v2 m2 (GET_LOCK a2) version
        (entry_ptr K tx (unat (w_nb_entries tx))) NULL = Some (Return r2 tx' g')"
  shows "layout_ok K tx'" and "ws_linked K tx'"
    and "m2 \<noteq> 0 \<Longrightarrow> written K tx' g' a2 v2 m2 r2"
    and "written K tx g addr value msk r \<Longrightarrow> written K tx' g' addr value msk r"
proof -
  let ?c = "w_cells tx"
  let ?nb = "unat (w_nb_entries tx)"
  let ?w = "entry_ptr K tx ?nb"
  let ?g = "ATOMIC_STORE_LOCK (GET_LOCK a2) (LOCK_SET_ADDR_WRITE ?w) g"
  let ?e = "new_entry ?g a2 v2 m2 (GET_LOCK a2) version"
  from room_idx [OF L room] have len: "?nb < length ?c"
    and sz: "?nb < unat (w_size tx)"
    and N: "unat (w_nb_entries tx + 1) = Suc ?nb"
    and pn: "entry_idx K tx ?w = Some ?nb"
    by simp_all
  let ?T = "tx\<lparr>w_cells := ?c[?nb := ?e], w_nb_entries := w_nb_entries tx + 1,
          w_has_writes := w_has_writes tx + 1\<rparr>"
  have A: "do_write K tx ?g a2 v2 m2 (GET_LOCK a2) version ?w NULL = Some (Return ?w ?T ?g)"
    using L room by (rule do_write_new_bucket)
  note eq = trans [OF D [symmetric] A, unfolded option.inject outcome.inject]
  from eq have tx': "tx' = ?T" and g': "g' = ?g" and r2: "r2 = ?w"
    by blast+
  have same: "w_entries tx' = w_entries tx" "length (w_cells tx') = length ?c"
    "w_nb_entries tx' = w_nb_entries tx + 1" "w_size tx' = w_size tx"
    by (simp_all add: tx')
  have idx: "entry_idx K tx' q = entry_idx K tx q" for q
    using same(1,2) by (rule entry_idx_same_layout)
  have old: "w_cells tx' ! k = ?c ! k" if "k < ?nb" for k
    using that by (simp add: tx')
  have new: "w_cells tx' ! ?nb = ?e"
    using len by (simp add: tx')
  from L sz have "?w AND 1 = 0"
    by (simp add: entry_ptr_even)
  then have ad: "LOCK_GET_ADDR (LOCK_SET_ADDR_WRITE ?w) = ?w"
    by (rule even_addr_roundtrip)
  have lk: "locks g' = (locks g)(GET_LOCK a2 := LOCK_SET_ADDR_WRITE ?w)"
    by (simp add: g' ATOMIC_STORE_LOCK_def)
  from L room same(1,4,2,3) show "layout_ok K tx'"
    by (rule layout_ok_after_insert)
  from W L room same(1,2,3) show "ws_linked K tx'"
  proof (rule ws_linked_grow [where j = "?nb"])
    show "w_next (w_cells tx' ! k) = w_next (?c ! k)" if "k < ?nb" for k
      using that by (simp add: old)
    show "w_next (w_cells tx' ! ?nb) = ?w \<or> w_next (w_cells tx' ! ?nb) = w_next (?c ! ?nb)"
      if "?nb < ?nb"
      using that by simp
    show "w_next (w_cells tx' ! ?nb) = NULL"
      by (simp add: new new_entry_simps)
  qed
  show "written K tx' g' a2 v2 m2 r2" if "m2 \<noteq> 0"
  proof -
    from that have e: "w_mask ?e \<noteq> 0" "w_value ?e AND m2 = v2 AND m2" "w_addr ?e = a2"
      by (simp_all add: new_entry_simps new_entry_value)
    have "write_bucket_loop (Suc 0) K tx' a2 ?w = Some (Same_addr ?w)"
      by (simp add: idx pn new e(3) Let_def)
    with e pn have "entry_idx K tx' (LOCK_GET_ADDR (locks g' (GET_LOCK a2))) = Some ?nb \<and>
        ?nb < unat (w_nb_entries tx') \<and>
        write_bucket_loop (Suc 0) K tx' a2 (LOCK_GET_ADDR (locks g' (GET_LOCK a2))) =
          Some (Same_addr r2) \<and>
        entry_idx K tx' r2 = Some ?nb \<and> w_mask (w_cells tx' ! ?nb) \<noteq> 0 \<and>
        w_value (w_cells tx' ! ?nb) AND m2 = v2 AND m2"
      by (simp add: r2 idx same(3) N lk new ad del: write_bucket_loop.simps)
    moreover have "LOCK_GET_OWNED (locks g' (GET_LOCK a2)) \<noteq> 0"
      by (simp add: lk owned_bit_set)
    ultimately show ?thesis
      unfolding written_def by blast
  qed
  show "written K tx' g' addr value msk r" if wr: "written K tx g addr value msk r"
    using wr W same(1,2)
  proof (rule written_stable)
    show "?nb \<le> unat (w_nb_entries tx')"
      by (simp add: same N)
    show "w_addr (w_cells tx' ! k) = w_addr (?c ! k)" if "k < ?nb" for k
      using that by (simp add: old)
    show "w_next (w_cells tx' ! k) = w_next (?c ! k)" if "k < ?nb" for k
      using that by (simp add: old)
    from wr have "LOCK_GET_OWNED (locks g (GET_LOCK addr)) \<noteq> 0"
      by (simp add: written_def)
    with free have "GET_LOCK addr \<noteq> GET_LOCK a2"
      by auto
    then show "locks g' (GET_LOCK addr) = locks g (GET_LOCK addr)"
      by (simp add: lk)
    show "w_mask (w_cells tx' ! k) \<noteq> 0 \<and>
      w_value (w_cells tx' ! k) AND msk = w_value (?c ! k) AND msk"
      if "k < ?nb" "w_mask (?c ! k) \<noteq> 0" for k
      using that by (simp add: old)
  qed
qed

lemma same_ws_refl: "same_ws tx tx"
  by (simp add: same_ws_def)

lemma same_ws_trans: "same_ws tx tx1 \<Longrightarrow> same_ws tx1 tx2 \<Longrightarrow> same_ws tx tx2"
  by (simp add: same_ws_def)

lemma same_ws_layout_ok: "same_ws tx tx' \<Longrightarrow> layout_ok K tx \<Longrightarrow> layout_ok K tx'"
  by (simp add: same_ws_def layout_ok_def)

lemma same_ws_linked:
  assumes "same_ws tx tx'" "ws_linked K tx"
  shows "ws_linked K tx'"
proof -
  from assms(1) have e: "w_entries tx' = w_entries tx" "length (w_cells tx') = length (w_cells tx)"
    "w_nb_entries tx' = w_nb_entries tx" and c: "w_cells tx' = w_cells tx"
    by (simp_all add: same_ws_def)
  from assms(2) e show ?thesis
    by (rule ws_linked_same) (simp add: c)
qed

lemma same_ws_written:
  assumes "same_ws tx tx'" "ws_linked K tx" "written K tx g addr value msk r"
  shows "written K tx' g addr value msk r"
proof -
  from assms(1) have e: "w_entries tx' = w_entries tx" "length (w_cells tx') = length (w_cells tx)"
    and n: "w_nb_entries tx' = w_nb_entries tx" and c: "w_cells tx' = w_cells tx"
    by (simp_all add: same_ws_def)
  from assms(3,2) e show ?thesis
    by (rule written_stable) (simp_all add: n c)
qed

lemma read_bucket_loop_ReturnD:
  "read_bucket_loop n K tx g a w = Some (Return v tx' g') \<Longrightarrow> tx' = tx \<and> g' = g"
proof (induction n arbitrary: w)
  case 0
  then show ?case by simp
next
  case (Suc n)
  then show ?case
    by (auto simp add: Let_def split: option.splits if_splits)
qed

lemma add_to_read_set_ReturnD:
  assumes "add_to_read_set tx g lock version value = Some (Return v tx' g')"
  shows "g' = g \<and> same_ws tx tx'"
  using assms
  by (auto simp add: add_to_read_set_def stm_allocate_rs_entries_extend_def same_ws_def Let_def
      split: if_splits)

lemma stm_wbetl_extend_same_ws: "same_ws tx (snd (stm_wbetl_extend K tx g))"
  by (simp add: stm_wbetl_extend_def same_ws_def Let_def)

lemma rollback_Return_inactive:
  assumes "then_do (stm_rollback n K tx g reason) (\<lambda>_ tx' g'. Some (Return v tx' g')) =
    Some (Return r tx' g')"
  shows "\<not> IS_ACTIVE (tx_status tx')"
  using rollback_then_return_status [OF assms] by (simp add: not_active_aborted)

lemma read_pass_FinishedD:
  assumes "read_pass n K tx g addr lock l = Finished (Some (Return v tx' g'))"
    and "IS_ACTIVE (tx_status tx')"
  shows "g' = g \<and> same_ws tx tx'"
proof (cases "LOCK_GET_WRITE l \<noteq> 0")
  case True
  with assms(1) have
    "read_bucket_loop n K tx g addr (LOCK_GET_ADDR l) = Some (Return v tx' g') \<or>
     then_do (stm_rollback n K tx g (STM_ABORT_RW_CONFLICT K))
       (\<lambda>_ tx' g'. Some (Return 0 tx' g')) = Some (Return v tx' g')"
    by (simp add: read_pass_def Let_def split: if_splits)
  then show ?thesis
  proof
    assume "read_bucket_loop n K tx g addr (LOCK_GET_ADDR l) = Some (Return v tx' g')"
    from read_bucket_loop_ReturnD [OF this] show ?thesis
      by (simp add: same_ws_refl)
  next
    assume "then_do (stm_rollback n K tx g (STM_ABORT_RW_CONFLICT K))
       (\<lambda>_ tx' g'. Some (Return 0 tx' g')) = Some (Return v tx' g')"
    from rollback_Return_inactive [OF this] assms(2) show ?thesis
      by simp
  qed
next
  case False
  let ?tx1 = "snd (stm_wbetl_extend K tx g)"
  from False assms(1) have
    "(v = memory g addr \<and> tx' = tx \<and> g' = g) \<or>
     then_do (stm_rollback n K tx g (STM_ABORT_VAL_READ K))
       (\<lambda>_ tx' g'. Some (Return 0 tx' g')) = Some (Return v tx' g') \<or>
     add_to_read_set ?tx1 g lock (LOCK_GET_TIMESTAMP l) (memory g addr) =
       Some (Return v tx' g') \<or>
     add_to_read_set tx g lock (LOCK_GET_TIMESTAMP l) (memory g addr) =
       Some (Return v tx' g')"
    by (auto simp add: read_pass_def Let_def split: if_splits)
  then show ?thesis
  proof (elim disjE)
    assume "v = memory g addr \<and> tx' = tx \<and> g' = g"
    then show ?thesis by (simp add: same_ws_refl)
  next
    assume "then_do (stm_rollback n K tx g (STM_ABORT_VAL_READ K))
       (\<lambda>_ tx' g'. Some (Return 0 tx' g')) = Some (Return v tx' g')"
    from rollback_Return_inactive [OF this] assms(2) show ?thesis
      by simp
  next
    assume "add_to_read_set ?tx1 g lock (LOCK_GET_TIMESTAMP l) (memory g addr) =
       Some (Return v tx' g')"
    from add_to_read_set_ReturnD [OF this] stm_wbetl_extend_same_ws [of tx K g]
    show ?thesis
      by (auto intro: same_ws_trans)
  next
    assume "add_to_read_set tx g lock (LOCK_GET_TIMESTAMP l) (memory g addr) =
       Some (Return v tx' g')"
    from add_to_read_set_ReturnD [OF this] show ?thesis .
  qed
qed

lemma read_pass_GotoD:
  assumes "read_pass n K tx g addr lock l = Goto_restart_no_load tx1 l1"
  shows "same_ws tx tx1"
proof -
  from assms have "tx1 = tx \<or> tx1 = snd (stm_wbetl_extend K tx g)"
    by (simp add: read_pass_def Let_def split: if_splits)
  with stm_wbetl_extend_same_ws [of tx K g] show ?thesis
    by (auto simp add: same_ws_refl)
qed

lemma read_restart_no_load_ReturnD:
  "read_restart_no_load n K tx g addr lock l = Some (Return v tx' g') \<Longrightarrow>
   IS_ACTIVE (tx_status tx') \<Longrightarrow> g' = g \<and> same_ws tx tx'"
proof (induction n arbitrary: tx l)
  case 0
  then show ?case by simp
next
  case (Suc n)
  show ?case
  proof (cases "read_pass n K tx g addr lock l")
    case (Finished r)
    with Suc.prems(1) have "read_pass n K tx g addr lock l = Finished (Some (Return v tx' g'))"
      by simp
    then show ?thesis
      using Suc.prems(2) by (rule read_pass_FinishedD)
  next
    case (Goto_restart_no_load tx1 l1)
    with Suc.prems(1) have "read_restart_no_load n K tx1 g addr lock l1 =
        Some (Return v tx' g')"
      by simp
    from Suc.IH [OF this Suc.prems(2)] read_pass_GotoD [OF Goto_restart_no_load]
    show ?thesis
      by (auto intro: same_ws_trans)
  qed
qed

lemma int_stm_load_ReturnD:
  assumes "int_stm_load n K tx g addr = Some (Return v tx' g')" "IS_ACTIVE (tx_status tx')"
  shows "g' = g \<and> same_ws tx tx' \<and> IS_ACTIVE (tx_status tx)"
proof -
  from assms(1) have a: "IS_ACTIVE (tx_status tx)"
    and "read_restart_no_load n K tx g addr (GET_LOCK addr) (locks g (GET_LOCK addr)) =
      Some (Return v tx' g')"
    by (simp_all add: int_stm_load_def stm_wbetl_read_invisible_def Let_def split: if_splits)
  from read_restart_no_load_ReturnD [OF this(2) assms(2)] a show ?thesis
    by simp
qed

lemma store_step:
  assumes L: "layout_ok K tx" and W: "ws_linked K tx" and act: "IS_ACTIVE (tx_status tx')"
  shows "stm_wbetl_write n K tx g a2 v2 m2 = Some (Return r2 tx' g') \<Longrightarrow>
    layout_ok K tx' \<and> ws_linked K tx' \<and>
    (m2 \<noteq> 0 \<longrightarrow> written K tx' g' a2 v2 m2 r2) \<and>
    (\<forall>addr value msk r. written K tx g addr value msk r \<longrightarrow>
       (a2 = addr \<longrightarrow> m2 AND msk = 0) \<longrightarrow> written K tx' g' addr value msk r)"
proof (induction n)
  case 0
  then show ?case by simp
next
  case (Suc n)
  have full: False
    if e: "extend_ws_if_full n K tx g = Some (Return v tx1 g1)"
      and s: "tx_status tx' = tx_status tx1" and f: "w_nb_entries tx = w_size tx"
    for v tx1 g1
  proof -
    from extend_ws_if_full_ReturnD [OF e] f have "tx_status tx1 = TX_ABORTED"
      by simp
    with s act show False
      by (simp add: not_active_aborted)
  qed
  from stm_wbetl_write_Suc_ReturnD [OF Suc.prems] show ?case
  proof (elim disjE conjE exE)
    assume "m2 = 0" "tx' = tx" "g' = g"
    with L W show ?thesis by simp
  next
    fix prev
    assume own: "LOCK_GET_OWNED (locks g (GET_LOCK a2)) \<noteq> 0"
      and inw: "in_w_set K tx (LOCK_GET_ADDR (locks g (GET_LOCK a2)))"
      and S: "write_bucket_loop n K tx a2 (LOCK_GET_ADDR (locks g (GET_LOCK a2))) =
        Some (Same_addr prev)"
      and Mg: "merge_into_entry K tx g a2 v2 m2 prev = Some (Return r2 tx' g')"
    note st = merge_step [OF L W own inw S Mg]
    from st(1,2,3) st(4) show ?thesis
      by blast
  next
    fix prev j v tx1 g1
    assume own: "LOCK_GET_OWNED (locks g (GET_LOCK a2)) \<noteq> 0"
      and inw: "in_w_set K tx (LOCK_GET_ADDR (locks g (GET_LOCK a2)))"
      and S: "write_bucket_loop n K tx a2 (LOCK_GET_ADDR (locks g (GET_LOCK a2))) =
        Some (Last_entry prev)"
      and e: "extend_ws_if_full n K tx g = Some (Return v tx1 g1)"
      and d: "do_write K tx1 g1 a2 v2 m2 (GET_LOCK a2) (w_version (w_cells tx ! j))
             (entry_ptr K tx1 (unat (w_nb_entries tx1))) prev = Some (Return r2 tx' g')"
    from do_write_ReturnD [OF d] have st: "tx_status tx' = tx_status tx1"
      by simp
    from full [OF e st] have room: "w_nb_entries tx \<noteq> w_size tx"
      by auto
    with extend_ws_if_full_ReturnD [OF e] have "tx1 = tx" "g1 = g"
      by simp_all
    with d have d': "do_write K tx g a2 v2 m2 (GET_LOCK a2) (w_version (w_cells tx ! j))
             (entry_ptr K tx (unat (w_nb_entries tx))) prev = Some (Return r2 tx' g')"
      by simp
    note st = append_step [OF L W own inw S room d']
    from st(1,2,3) st(4) show ?thesis
      by blast
  next
    assume "stm_wbetl_write n K tx g a2 v2 m2 = Some (Return r2 tx' g')"
    then show ?thesis by (rule Suc.IH)
  next
    assume "stm_rollback n K tx g (STM_ABORT_WW_CONFLICT K) = Some (Return () tx' g')"
    then have "tx_status tx' = TX_ABORTED" by (rule stm_rollback_Return_aborted)
    with act show ?thesis by (simp add: not_active_aborted)
  next
    assume "stm_rollback n K tx g (STM_ABORT_VAL_WRITE K) = Some (Return () tx' g')"
    then have "tx_status tx' = TX_ABORTED" by (rule stm_rollback_Return_aborted)
    with act show ?thesis by (simp add: not_active_aborted)
  next
    fix v tx1 g1
    assume free: "LOCK_GET_OWNED (locks g (GET_LOCK a2)) = 0"
      and e: "extend_ws_if_full n K tx g = Some (Return v tx1 g1)"
      and d: "do_write K tx1
              (ATOMIC_STORE_LOCK (GET_LOCK a2)
                 (LOCK_SET_ADDR_WRITE (entry_ptr K tx1 (unat (w_nb_entries tx1)))) g1)
              a2 v2 m2 (GET_LOCK a2) (LOCK_GET_TIMESTAMP (locks g (GET_LOCK a2)))
              (entry_ptr K tx1 (unat (w_nb_entries tx1))) NULL = Some (Return r2 tx' g')"
    from do_write_ReturnD [OF d] have st: "tx_status tx' = tx_status tx1"
      by simp
    from full [OF e st] have room: "w_nb_entries tx \<noteq> w_size tx"
      by auto
    with extend_ws_if_full_ReturnD [OF e] have "tx1 = tx" "g1 = g"
      by simp_all
    with d have d': "do_write K tx
              (ATOMIC_STORE_LOCK (GET_LOCK a2)
                 (LOCK_SET_ADDR_WRITE (entry_ptr K tx (unat (w_nb_entries tx)))) g)
              a2 v2 m2 (GET_LOCK a2) (LOCK_GET_TIMESTAMP (locks g (GET_LOCK a2)))
              (entry_ptr K tx (unat (w_nb_entries tx))) NULL = Some (Return r2 tx' g')"
      by simp
    note st = acquire_step [OF L W free room d']
    from st(1,2,3) st(4) show ?thesis
      by blast
  next
    fix v tx1 g1
    assume e: "extend_ws_if_full n K tx g = Some (Return v tx1 g1)"
      and ne: "locks g1 (GET_LOCK a2) \<noteq> locks g (GET_LOCK a2)"
      and d: "stm_wbetl_write n K tx1 g1 a2 v2 m2 = Some (Return r2 tx' g')"
    from extend_ws_if_full_ReturnD [OF e] ne have "tx_status tx1 = TX_ABORTED"
      by auto
    then have "\<not> IS_ACTIVE (tx_status tx1)"
      by (simp add: not_active_aborted)
    then have "\<not> IS_ACTIVE (tx_status tx')"
      using d by (rule stm_wbetl_write_keeps_inactive)
    with act show ?thesis by simp
  qed
qed

lemma run_ops_active:
  "run_ops K ops tx g = Some (tx', g') \<Longrightarrow> IS_ACTIVE (tx_status tx') \<Longrightarrow>
   IS_ACTIVE (tx_status tx)"
proof (induction ops arbitrary: tx g)
  case Nil
  then show ?case by simp
next
  case (Cons op ops)
  show ?case
  proof (rule ccontr)
    assume "\<not> IS_ACTIVE (tx_status tx)"
    then have "run_ops K (op # ops) tx g = None"
      by (cases op)
        (simp_all add: int_stm_load_def stm_wbetl_read_invisible_def stm_write_def)
    with Cons.prems(1) show False
      by simp
  qed
qed

lemma run_ops_ConsD:
  assumes "run_ops K (op # ops) tx g = Some (tx', g')"
  shows "\<exists>tx1 g1. run_ops K ops tx1 g1 = Some (tx', g') \<and>
    (case op of
       Op_load n a \<Rightarrow> \<exists>v. int_stm_load n K tx g a = Some (Return v tx1 g1)
     | Op_store n a v m \<Rightarrow> \<exists>r. stm_write n K tx g a v m = Some (Return r tx1 g1))"
  using assms by (cases op) (auto split: option.splits outcome.splits)

lemma run_ops_keeps_written:
  "layout_ok K tx \<Longrightarrow> ws_linked K tx \<Longrightarrow> written K tx g addr value msk r \<Longrightarrow>
   run_ops K ops tx g = Some (tx', g') \<Longrightarrow> list_all (leaves_bits addr msk) ops \<Longrightarrow>
   IS_ACTIVE (tx_status tx') \<Longrightarrow>
   layout_ok K tx' \<and> ws_linked K tx' \<and> written K tx' g' addr value msk r"
proof (induction ops arbitrary: tx g)
  case Nil
  then show ?case by simp
next
  case (Cons op ops)
  from run_ops_ConsD [OF Cons.prems(4)] obtain tx1 g1 where
    rest: "run_ops K ops tx1 g1 = Some (tx', g')"
    and first: "case op of
       Op_load n a \<Rightarrow> \<exists>v. int_stm_load n K tx g a = Some (Return v tx1 g1)
     | Op_store n a v m \<Rightarrow> \<exists>r. stm_write n K tx g a v m = Some (Return r tx1 g1)"
    by blast
  from rest Cons.prems(6) have a1: "IS_ACTIVE (tx_status tx1)"
    by (rule run_ops_active)
  from Cons.prems(5) have lb: "leaves_bits addr msk op" "list_all (leaves_bits addr msk) ops"
    by simp_all
  have "layout_ok K tx1 \<and> ws_linked K tx1 \<and> written K tx1 g1 addr value msk r"
  proof (cases op)
    case (Op_load n a)
    with first obtain v where "int_stm_load n K tx g a = Some (Return v tx1 g1)"
      by auto
    from int_stm_load_ReturnD [OF this a1] have "g1 = g" "same_ws tx tx1"
      by simp_all
    with Cons.prems(1,2,3) show ?thesis
      by (simp add: same_ws_layout_ok same_ws_linked same_ws_written)
  next
    case (Op_store n a v m)
    with first obtain r' where "stm_write n K tx g a v m = Some (Return r' tx1 g1)"
      by auto
    then have "stm_wbetl_write n K tx g a v m = Some (Return r' tx1 g1)"
      by (simp add: stm_write_def split: if_splits)
    from store_step [OF Cons.prems(1,2) a1 this] Cons.prems(3) lb(1) Op_store
    show ?thesis
      by (auto split: if_splits)
  qed
  then have "layout_ok K tx1" "ws_linked K tx1" "written K tx1 g1 addr value msk r"
    by simp_all
  then show ?case
    using rest lb(2) Cons.prems(6) by (rule Cons.IH)
qed

lemma ws_linked_empty: "w_nb_entries tx = 0 \<Longrightarrow> ws_linked K tx"
  by (simp add: ws_linked_def)

lemma lock_owned_write: "LOCK_GET_OWNED l \<noteq> 0 \<Longrightarrow> LOCK_GET_WRITE l \<noteq> 0"
  by (simp add: LOCK_GET_OWNED_def LOCK_GET_WRITE_def OWNED_MASK_def)

lemma load_of_written:
  assumes L: "layout_ok K tx" and W: "ws_linked K tx"
    and wr: "written K tx g addr value msk r"
    and act: "IS_ACTIVE (tx_status tx)" and fuel: "unat (w_nb_entries tx) < m"
  shows "\<exists>i. entry_idx K tx r = Some i \<and> w_addr (w_cells tx ! i) = addr \<and>
    w_value (w_cells tx ! i) AND msk = value AND msk \<and>
    int_stm_load m K tx g addr = Some (Return (w_value (w_cells tx ! i)) tx g)"
proof -
  let ?h = "LOCK_GET_ADDR (locks g (GET_LOCK addr))"
  from wr obtain n i0 i where own: "LOCK_GET_OWNED (locks g (GET_LOCK addr)) \<noteq> 0"
    and i0: "entry_idx K tx ?h = Some i0" "i0 < unat (w_nb_entries tx)"
    and s: "write_bucket_loop n K tx addr ?h = Some (Same_addr r)"
    and i: "entry_idx K tx r = Some i" "w_mask (w_cells tx ! i) \<noteq> 0"
      "w_value (w_cells tx ! i) AND msk = value AND msk"
    unfolding written_def by blast
  from fuel obtain m' where m: "m = Suc m'" and fuel': "unat (w_nb_entries tx) - i0 \<le> m'"
    by (cases m) auto
  from write_bucket_loop_SameD [OF s] i(1) have ia: "w_addr (w_cells tx ! i) = addr"
    by auto
  have "w_cells tx = (w_cells tx)[i := w_cells tx ! i]"
    by simp
  from read_after_merge [OF W refl this refl refl i(1) s i0 fuel', of g] i(2)
  have rb: "read_bucket_loop m' K tx g addr ?h = Some (Return (w_value (w_cells tx ! i)) tx g)"
    by simp
  from L have "w_nb_entries tx \<le> w_size tx"
    by (simp add: layout_ok_def)
  with i0(2) have "i0 \<le> unat (w_size tx)"
    by (simp add: word_le_nat_alt)
  with L i0(2) have "in_w_set K tx (entry_ptr K tx i0)"
    by (simp add: in_w_set_entry_ptr)
  with entry_idx_SomeD [OF i0(1)] have inw: "in_w_set K tx ?h"
    by simp
  from act lock_owned_write [OF own] inw rb
  have "int_stm_load m K tx g addr = Some (Return (w_value (w_cells tx ! i)) tx g)"
    by (simp add: int_stm_load_def stm_wbetl_read_invisible_def read_pass_def m Let_def)
  with i(1,3) ia show ?thesis
    by blast
qed

text \<open>
  Claim C3. Read after write. A store to \<open>addr\<close> with a nonzero mask has returned in a
  transaction; then any sequence of further loads and stores of that transaction has
  returned (\<open>run_ops\<close>), none of them a store to \<open>addr\<close> that touches a bit of the mask
  (\<open>leaves_bits\<close>; stores to other addresses, of the same bucket or not, and loads of
  any address are all allowed), and the transaction is still active. Then a load of
  \<open>addr\<close> returns: its result \<open>v\<close> is the value of the write-set entry for \<open>addr\<close> that
  the store returned, \<open>v\<close> agrees with the stored value on the bits of the mask (and is
  the stored value when the mask is full), and the load leaves the descriptor, the read
  set included, and the global state exactly as they were. With the empty sequence this
  is the load that directly follows the store. Before the store the write set is laid
  out in its array (\<open>layout_ok\<close>) and its \<open>next\<close> pointers lead forwards within it
  (\<open>ws_linked\<close>, which an empty write set satisfies); every store that returns in an
  active transaction keeps both (\<open>store_step\<close>). The load is given more steps than the
  write set has entries.
\<close>

theorem load_after_store_returns_written_value:
  assumes "layout_ok K tx" and "ws_linked K tx" and "msk \<noteq> 0"
    and "stm_write n K tx g addr value msk = Some (Return r tx1 g1)"
    and "run_ops K ops tx1 g1 = Some (tx2, g2)"
    and "list_all (leaves_bits addr msk) ops"
    and "IS_ACTIVE (tx_status tx2)"
    and "unat (w_nb_entries tx2) < m"
  shows "\<exists>v i. int_stm_load m K tx2 g2 addr = Some (Return v tx2 g2) \<and>
      v AND msk = value AND msk \<and> (msk = NOT 0 \<longrightarrow> v = value) \<and>
      entry_idx K tx2 r = Some i \<and> w_addr (w_cells tx2 ! i) = addr \<and>
      v = w_value (w_cells tx2 ! i)"
proof -
  from assms(5,7) have a1: "IS_ACTIVE (tx_status tx1)"
    by (rule run_ops_active)
  from assms(4) have "stm_wbetl_write n K tx g addr value msk = Some (Return r tx1 g1)"
    by (simp add: stm_write_def split: if_splits)
  from store_step [OF assms(1,2) a1 this] assms(3)
  have "layout_ok K tx1" "ws_linked K tx1" "written K tx1 g1 addr value msk r"
    by simp_all
  from run_ops_keeps_written [OF this assms(5,6,7)]
  have "layout_ok K tx2" "ws_linked K tx2" "written K tx2 g2 addr value msk r"
    by simp_all
  from load_of_written [OF this assms(7,8)] obtain i where
    i: "entry_idx K tx2 r = Some i" "w_addr (w_cells tx2 ! i) = addr"
    "w_value (w_cells tx2 ! i) AND msk = value AND msk"
    "int_stm_load m K tx2 g2 addr = Some (Return (w_value (w_cells tx2 ! i)) tx2 g2)"
    by blast
  from i(3) have "msk = NOT 0 \<longrightarrow> w_value (w_cells tx2 ! i) = value"
    by auto
  with i show ?thesis
    by blast
qed

subsection \<open>Validation, extension and stores on owned locks\<close>

lemma validate_loop_iff:
  "validate_loop K tx g rs \<longleftrightarrow> (\<forall>r \<in> set rs. read_entry_valid K tx g r)"
  by (induction rs) (auto simp add: read_entry_valid_def Let_def)

text \<open>
  Claim C2. Snapshot extension succeeds if and only if every entry of the read set is
  valid, in the sense of \<open>read_entry_valid\<close>: its lock word is owned and the pointer
  decoded from it lies within the write-set array of this transaction, or it is free and
  its timestamp is the version recorded in the entry. On success \<open>end\<close> becomes the clock
  value read at the start of the extension and 1 is returned; on failure the descriptor
  is unchanged and 0 is returned. The read-set count is a C \<open>int\<close> in the loop, hence at
  most \<open>INT_MAX\<close>.
\<close>

theorem extend_succeeds_iff_read_set_valid:
  assumes "r_nb_entries tx \<le> INT_MAX"
  shows "stm_wbetl_extend K tx g =
    (if \<forall>r \<in> set (read_set tx). read_entry_valid K tx g r
     then (1, tx\<lparr>tx_end := CLOCK g\<rparr>) else (0, tx))"
proof -
  from assms have "take (loop_count (r_nb_entries tx)) (r_entries tx) = read_set tx"
    by (simp add: loop_count_unat read_set_def)
  then have "stm_wbetl_validate K tx g =
      (if \<forall>r \<in> set (read_set tx). read_entry_valid K tx g r then 1 else 0)"
    by (simp add: stm_wbetl_validate_def validate_loop_iff)
  then show ?thesis
    by (simp add: stm_wbetl_extend_def Let_def)
qed

text \<open>
  Claim C10. A store with mask 0 on a lock that this transaction owns returns at once the
  entry the lock word points to, and the descriptor and the global state are unchanged:
  no entry is appended, no value or mask is touched and the lock word stays. Nothing is
  asked of the bucket, which may or may not hold an entry for \<open>addr\<close>.
\<close>

theorem store_zero_mask_on_owned_lock:
  assumes "LOCK_GET_OWNED (locks g (GET_LOCK addr)) \<noteq> 0"
    and "in_w_set K tx (LOCK_GET_ADDR (locks g (GET_LOCK addr)))"
    and "IS_ACTIVE (tx_status tx)"
  shows "stm_write (Suc n) K tx g addr value 0 =
    Some (Return (LOCK_GET_ADDR (locks g (GET_LOCK addr))) tx g)"
proof -
  from assms(1,2) have "stm_wbetl_write (Suc n) K tx g addr value 0 =
      Some (Return (LOCK_GET_ADDR (locks g (GET_LOCK addr))) tx g)"
    by (simp add: Let_def)
  with assms(3) show ?thesis
    by (simp add: stm_write_def)
qed

lemma bucket_search_finds:
  "bucket_entries n K tx p0 = Some is \<Longrightarrow> \<exists>i \<in> set is. w_addr (w_cells tx ! i) = a \<Longrightarrow>
   \<exists>prev j. write_bucket_loop n K tx a p0 = Some (Same_addr prev) \<and>
     entry_idx K tx prev = Some j \<and> j \<in> set is \<and> w_addr (w_cells tx ! j) = a"
proof (induction n arbitrary: p0 "is")
  case 0
  then show ?case by simp
next
  case (Suc n)
  from Suc.prems(1) obtain i0 where i0: "entry_idx K tx p0 = Some i0"
    by (auto split: option.splits)
  show ?case
  proof (cases "a = w_addr (w_cells tx ! i0)")
    case True
    moreover from Suc.prems(1) i0 have "i0 \<in> set is"
      by (auto split: if_splits)
    ultimately show ?thesis
      using i0 by (auto simp add: Let_def)
  next
    case False
    show ?thesis
    proof (cases "w_next (w_cells tx ! i0) = NULL")
      case True
      with Suc.prems(1) i0 have "is = [i0]"
        by simp
      with Suc.prems(2) False show ?thesis
        by simp
    next
      case nn: False
      with Suc.prems(1) i0 obtain js where
        js: "bucket_entries n K tx (w_next (w_cells tx ! i0)) = Some js" and "is": "is = i0 # js"
        by auto
      from Suc.prems(2) "is" False have "\<exists>i \<in> set js. w_addr (w_cells tx ! i) = a"
        by auto
      from Suc.IH [OF js this] obtain prev j where
        "write_bucket_loop n K tx a (w_next (w_cells tx ! i0)) = Some (Same_addr prev)"
        "entry_idx K tx prev = Some j" "j \<in> set js" "w_addr (w_cells tx ! j) = a"
        by blast
      with False nn i0 "is" show ?thesis
        by (auto simp add: Let_def)
    qed
  qed
qed

text \<open>
  Claim C6. A store with a nonzero mask on a lock that this transaction owns, whose bucket
  (the entries reached from the lock word along \<open>next\<close>) has an entry for \<open>addr\<close>, merges
  in place. It returns a pointer to an entry \<open>j\<close> of the bucket with address \<open>addr\<close>;
  the value of that entry becomes \<open>(old AND NOT msk) OR (value AND msk)\<close>, where \<open>old\<close> is
  the memory word at \<open>addr\<close> if the mask of the entry was 0 and the value of the entry
  otherwise; \<open>msk\<close> is ORed into the mask of the entry; nothing else in the descriptor,
  the entry count in particular, and nothing in the global state changes.
\<close>

theorem store_merges_into_existing_entry:
  assumes "LOCK_GET_OWNED (locks g (GET_LOCK addr)) \<noteq> 0"
    and "in_w_set K tx (LOCK_GET_ADDR (locks g (GET_LOCK addr)))"
    and "msk \<noteq> 0"
    and "bucket_entries n K tx (LOCK_GET_ADDR (locks g (GET_LOCK addr))) = Some is"
    and "\<exists>i \<in> set is. w_addr (w_cells tx ! i) = addr"
  shows "\<exists>prev j tx'. stm_wbetl_write (Suc n) K tx g addr value msk = Some (Return prev tx' g) \<and>
      entry_idx K tx prev = Some j \<and> j \<in> set is \<and> w_addr (w_cells tx ! j) = addr \<and>
      tx' = tx\<lparr>w_cells := (w_cells tx)[j := (w_cells tx ! j)
        \<lparr>w_value := ((if w_mask (w_cells tx ! j) = 0 then memory g addr
                       else w_value (w_cells tx ! j)) AND NOT msk) OR (value AND msk),
         w_mask := w_mask (w_cells tx ! j) OR msk\<rparr>]\<rparr> \<and>
      w_nb_entries tx' = w_nb_entries tx"
proof -
  from bucket_search_finds [OF assms(4,5)] obtain prev j where
    s: "write_bucket_loop n K tx addr (LOCK_GET_ADDR (locks g (GET_LOCK addr))) =
      Some (Same_addr prev)"
    and j: "entry_idx K tx prev = Some j" "j \<in> set is" "w_addr (w_cells tx ! j) = addr"
    by blast
  let ?e = "w_cells tx ! j"
  let ?tx' = "tx\<lparr>w_cells := (w_cells tx)[j := ?e
        \<lparr>w_value := ((if w_mask ?e = 0 then memory g addr else w_value ?e) AND NOT msk) OR
            (value AND msk),
         w_mask := w_mask ?e OR msk\<rparr>]\<rparr>"
  from assms(1-3) s have "stm_wbetl_write (Suc n) K tx g addr value msk =
      merge_into_entry K tx g addr value msk prev"
    by (simp add: Let_def)
  also from j(1) have "\<dots> = Some (Return prev ?tx' g)"
    by (cases "msk = NOT 0") (simp_all add: merge_into_entry_def Let_def)
  finally have "stm_wbetl_write (Suc n) K tx g addr value msk = Some (Return prev ?tx' g)" .
  with j show ?thesis
    by simp
qed

subsection \<open>Stores on free locks\<close>





subsection \<open>A concrete transaction\<close>

lemma lock_idx_ex: "GET_LOCK 0x1000 = 128" "GET_LOCK 0x1008 = 128" "GET_LOCK 0x2000 = 256"
  by (simp_all add: GET_LOCK_def LOCK_IDX_def LOCK_SHIFT_def LOCK_SHIFT_EXTRA_def LOCK_MASK_def
      LOCK_ARRAY_LOG_SIZE_def)

lemma write_set_ex: "write_set tx_ex = [e0_ex, e1_ex]"
  by (simp add: write_set_def tx_ex_def)

lemma read_set_ex: "read_set tx_ex = [\<lparr>r_version = 2, r_lock = 5\<rparr>]"
  by (simp add: read_set_def tx_ex_def)

lemma nb_ex: "w_nb_entries tx_ex \<le> INT_MAX" "r_nb_entries tx_ex \<le> INT_MAX"
  by (simp_all add: tx_ex_def INT_MAX_def)

lemma layout_ex: "layout_ok K_ex tx_ex"
  by (simp add: layout_ok_def K_ex_def tx_ex_def NULL_def OWNED_MASK_def WRITE_MASK_def)

lemma entry_idx_ex:
  "entry_idx K_ex tx_ex 0x10000 = Some 0" "entry_idx K_ex tx_ex 0x10040 = Some 1"
  by (simp_all add: entry_idx_def K_ex_def tx_ex_def)

lemma active_ex: "IS_ACTIVE (tx_status tx_ex)"
  by (simp add: tx_ex_def IS_ACTIVE_def TX_ACTIVE_def)

lemma ws_linked_ex: "ws_linked K_ex tx_ex"
proof -
  have "i < 2 \<longleftrightarrow> i = 0 \<or> i = 1" for i :: nat
    by auto
  moreover have "w_cells tx_ex ! 0 = e0_ex" "w_cells tx_ex ! 1 = e1_ex" "w_nb_entries tx_ex = 2"
    by (simp_all add: tx_ex_def)
  ultimately show ?thesis
    by (auto simp add: ws_linked_def e0_ex_def e1_ex_def entry_idx_ex)
qed

lemma in_w_set_ex: "in_w_set K_ex tx_ex 0x10000"
  by (simp add: in_w_set_def entry_ptr_def K_ex_def tx_ex_def)

lemma single_tail_ex: "single_tail (write_set tx_ex)"
  by (simp add: single_tail_def write_set_ex e0_ex_def e1_ex_def NULL_def)



lemma irrevocable_ex: "tx_irrevocable tx_ex = 0" "g_irrevocable g_ex = 0"
  by (simp_all add: tx_ex_def g_ex_def)

lemma ts_ex: "LOCK_SET_TIMESTAMP 3 = 0x30" "LOCK_SET_TIMESTAMP 4 = 0x40"
  "LOCK_GET_TIMESTAMP 0x30 = 3" "LOCK_GET_TIMESTAMP 0x20 = 2" "LOCK_GET_TIMESTAMP 0x50 = 5"
  by (simp_all add: LOCK_SET_TIMESTAMP_def LOCK_GET_TIMESTAMP_def LOCK_BITS_def OWNED_BITS_def
      INCARNATION_BITS_def)


theorem commit_publication_order_witness:
  "tx_irrevocable tx_ex = 0 \<and> g_irrevocable g_ex = 0 \<and> tx_start tx_ex = CLOCK g_ex \<and>
   w_nb_entries tx_ex \<le> INT_MAX \<and> single_tail (write_set tx_ex) \<and>
   write_set tx_ex = [e0_ex, e1_ex] \<and>
   (\<exists>g'. stm_wbetl_commit 0 K_ex tx_ex g_ex = Some (Return 1 tx_ex g') \<and>
      trace g' = [Mem_store 0x1000 7, Mem_store 0x1008 9, Lock_store 128 0x40] \<and>
      memory g' 0x1000 = 7 \<and> memory g' 0x1008 = 9 \<and> locks g' 128 = 0x40)"
proof -
  have s: "tx_start tx_ex = CLOCK g_ex"
    by (simp add: tx_ex_def g_ex_def)
  then have "tx_start tx_ex = CLOCK g_ex \<or>
      stm_wbetl_validate K_ex tx_ex (g_ex\<lparr>CLOCK := CLOCK g_ex + 1\<rparr>) \<noteq> 0"
    by simp
  from commit_publication_order [OF irrevocable_ex this nb_ex(1) single_tail_ex, of 0]
  obtain g' where c: "stm_wbetl_commit 0 K_ex tx_ex g_ex = Some (Return 1 tx_ex g')"
    and t: "trace g' = trace g_ex @ publication_events (CLOCK g_ex + 1) (write_set tx_ex)"
    and m: "memory g' = published_memory (write_set tx_ex) (memory g_ex)"
    and l: "\<forall>w \<in> set (write_set tx_ex). locks g' (w_lock w) = LOCK_SET_TIMESTAMP (CLOCK g_ex + 1)"
    by blast
  have k: "CLOCK g_ex + 1 = 4"
    by (simp add: g_ex_def)
  from t have "trace g' = [Mem_store 0x1000 7, Mem_store 0x1008 9, Lock_store 128 0x40]"
    by (simp add: k write_set_ex publication_events_def e0_ex_def e1_ex_def NULL_def ts_ex g_ex_def)
  moreover from m have "memory g' 0x1000 = 7" "memory g' 0x1008 = 9"
    by (simp_all add: write_set_ex published_memory_def e0_ex_def e1_ex_def)
  moreover from l have "locks g' 128 = 0x40"
    by (simp add: k write_set_ex e0_ex_def e1_ex_def ts_ex)
  ultimately show ?thesis
    using c s irrevocable_ex nb_ex(1) single_tail_ex write_set_ex by simp
qed

lemma stale_facts: "tx_irrevocable tx_stale = 0" "IS_ACTIVE (tx_status tx_stale)"
  "r_nb_entries tx_stale \<le> INT_MAX" "w_nb_entries tx_stale \<le> INT_MAX"
  "read_set tx_stale = [\<lparr>r_version = 1, r_lock = 5\<rparr>]" "write_set tx_stale = [e0_ex, e1_ex]"
  by (simp_all add: tx_stale_def tx_ex_def IS_ACTIVE_def TX_ACTIVE_def INT_MAX_def read_set_def
      write_set_def)

theorem extend_succeeds_iff_read_set_valid_witness:
  "r_nb_entries tx_ex \<le> INT_MAX \<and> r_nb_entries tx_stale \<le> INT_MAX \<and>
   stm_wbetl_extend K_ex tx_ex (g_ex\<lparr>CLOCK := 9\<rparr>) = (1, tx_ex\<lparr>tx_end := 9\<rparr>) \<and>
   stm_wbetl_extend K_ex tx_stale (g_ex\<lparr>CLOCK := 9\<rparr>) = (0, tx_stale)"
proof -
  have v: "read_entry_valid K_ex tx_ex (g_ex\<lparr>CLOCK := 9\<rparr>) \<lparr>r_version = 2, r_lock = 5\<rparr>"
    by (simp add: read_entry_valid_def g_ex_def LOCK_GET_OWNED_def OWNED_MASK_def WRITE_MASK_def
        ts_ex)
  have n: "\<not> read_entry_valid K_ex tx_stale (g_ex\<lparr>CLOCK := 9\<rparr>) \<lparr>r_version = 1, r_lock = 5\<rparr>"
    by (simp add: read_entry_valid_def g_ex_def LOCK_GET_OWNED_def OWNED_MASK_def WRITE_MASK_def
        ts_ex)
  from extend_succeeds_iff_read_set_valid [OF nb_ex(2), of K_ex "g_ex\<lparr>CLOCK := 9\<rparr>"] v
  have "stm_wbetl_extend K_ex tx_ex (g_ex\<lparr>CLOCK := 9\<rparr>) = (1, tx_ex\<lparr>tx_end := 9\<rparr>)"
    by (simp add: read_set_ex)
  moreover
  from extend_succeeds_iff_read_set_valid [OF stale_facts(3), of K_ex "g_ex\<lparr>CLOCK := 9\<rparr>"] n
  have "stm_wbetl_extend K_ex tx_stale (g_ex\<lparr>CLOCK := 9\<rparr>) = (0, tx_stale)"
    by (simp add: stale_facts)
  ultimately show ?thesis
    using nb_ex(2) stale_facts(3) by simp
qed

theorem rollback_no_retry_returns_witness:
  "IS_ACTIVE (tx_status tx_ex) \<and> no_retry (tx_attr tx_ex) \<and>
   STM_ABORT_VALIDATE K_ex \<noteq> STM_ABORT_EXTEND_WS K_ex \<and> w_nb_entries tx_ex \<le> INT_MAX \<and>
   (\<exists>tx' g'. stm_rollback 0 K_ex tx_ex g_ex (STM_ABORT_VALIDATE K_ex) = Some (Return () tx' g') \<and>
      locks g' 128 = 0x30 \<and> int_stm_aborted tx' = 1 \<and> tx_nesting tx' = 0 \<and>
      w_nb_entries tx' = 2 \<and> r_nb_entries tx' = 1 \<and> tx_start tx' = 3)"
proof -
  have nr: "no_retry (tx_attr tx_ex) \<or>
      STM_ABORT_VALIDATE K_ex AND STM_ABORT_NO_RETRY K_ex = STM_ABORT_NO_RETRY K_ex"
    by (simp add: tx_ex_def)
  have ne: "STM_ABORT_VALIDATE K_ex \<noteq> STM_ABORT_EXTEND_WS K_ex"
    by (simp add: K_ex_def)
  then have al: "STM_ABORT_VALIDATE K_ex = STM_ABORT_EXTEND_WS K_ex \<longrightarrow>
      xrealloc g_ex (w_entries tx_ex) (unat (w_size tx_ex * 2) * SIZEOF_W_ENTRY K_ex) AND
        OWNED_MASK = 0"
    by simp
  from rollback_no_retry_returns [OF active_ex nr al nb_ex(1), of 0]
  obtain tx' g' where
    r: "stm_rollback 0 K_ex tx_ex g_ex (STM_ABORT_VALIDATE K_ex) = Some (Return () tx' g')"
    and l: "locks g' = released_locks (write_set tx_ex) (locks g_ex)"
    and a: "int_stm_aborted tx' = 1" "tx_nesting tx' = 0"
      "w_nb_entries tx' = w_nb_entries tx_ex" "r_nb_entries tx' = r_nb_entries tx_ex"
      "tx_start tx' = tx_start tx_ex"
    by blast
  from l have "locks g' 128 = 0x30"
    by (simp add: write_set_ex released_locks_def e0_ex_def e1_ex_def NULL_def ts_ex)
  moreover from a have "w_nb_entries tx' = 2" "r_nb_entries tx' = 1" "tx_start tx' = 3"
    by (simp_all add: tx_ex_def)
  moreover have "no_retry (tx_attr tx_ex)"
    by (simp add: tx_ex_def)
  ultimately show ?thesis
    using r a(1,2) active_ex ne nb_ex(1) by simp
qed


theorem store_zero_mask_on_owned_lock_witness:
  "LOCK_GET_OWNED (locks g_ex (GET_LOCK 0x1010)) \<noteq> 0 \<and>
   in_w_set K_ex tx_ex (LOCK_GET_ADDR (locks g_ex (GET_LOCK 0x1010))) \<and>
   IS_ACTIVE (tx_status tx_ex) \<and>
   w_addr e0_ex \<noteq> 0x1010 \<and> w_addr e1_ex \<noteq> 0x1010 \<and>
   stm_write (Suc 0) K_ex tx_ex g_ex 0x1010 77 0 = Some (Return 0x10000 tx_ex g_ex)"
proof -
  have l: "GET_LOCK 0x1010 = 128"
    by (simp add: GET_LOCK_def LOCK_IDX_def LOCK_SHIFT_def LOCK_SHIFT_EXTRA_def LOCK_MASK_def
        LOCK_ARRAY_LOG_SIZE_def)
  have w: "locks g_ex 128 = 0x10001" "LOCK_GET_OWNED 0x10001 \<noteq> 0" "LOCK_GET_ADDR 0x10001 = 0x10000"
    by (simp_all add: g_ex_def LOCK_GET_OWNED_def LOCK_GET_ADDR_def OWNED_MASK_def WRITE_MASK_def)
  have o: "LOCK_GET_OWNED (locks g_ex (GET_LOCK 0x1010)) \<noteq> 0"
    and i: "in_w_set K_ex tx_ex (LOCK_GET_ADDR (locks g_ex (GET_LOCK 0x1010)))"
    by (simp_all add: l w in_w_set_ex)
  from store_zero_mask_on_owned_lock [OF o i active_ex, of 0 77] o i active_ex show ?thesis
    by (simp add: l w e0_ex_def e1_ex_def)
qed

lemma lock128_ex: "locks g_ex 128 = 0x10001" "LOCK_GET_OWNED 0x10001 \<noteq> 0"
  "LOCK_GET_ADDR 0x10001 = 0x10000" "LOCK_GET_WRITE 0x10001 \<noteq> 0"
  by (simp_all add: g_ex_def LOCK_GET_OWNED_def LOCK_GET_ADDR_def LOCK_GET_WRITE_def
      OWNED_MASK_def WRITE_MASK_def)

lemma cells_ex: "w_cells tx_ex ! 0 = e0_ex" "w_cells tx_ex ! 1 = e1_ex"
  "w_cells tx_ex ! Suc 0 = e1_ex"
  by (simp_all add: tx_ex_def)

lemma fields_ex: "w_next e0_ex = 0x10040" "w_next e1_ex = NULL" "w_addr e0_ex = 0x1000"
  "w_addr e1_ex = 0x1008" "(0x10040 :: stm_word_t) \<noteq> NULL" "w_mask e1_ex = 0xFF"
  "w_value e1_ex = 9"
  by (simp_all add: e0_ex_def e1_ex_def NULL_def)

lemma bucket_entries_ex: "bucket_entries (Suc (Suc 0)) K_ex tx_ex 0x10000 = Some [0, 1]"
  by (simp add: entry_idx_ex cells_ex fields_ex)

lemma merged_value: "(9 AND NOT 0xFF00) OR (0xAB00 AND 0xFF00) = (0xAB09 :: stm_word_t)"
  "(0xFF :: stm_word_t) OR 0xFF00 = 0xFFFF" "(0xFF00 :: stm_word_t) \<noteq> 0"
  "(0xFF00 :: stm_word_t) \<noteq> NOT 0" "(0xFF :: stm_word_t) \<noteq> 0"
  by simp_all

lemma tx_merged_eq:
  "tx_ex\<lparr>w_cells := (w_cells tx_ex)[Suc 0 := e1_ex\<lparr>w_value := 0xAB09, w_mask := 0xFFFF\<rparr>]\<rparr> =
     tx_merged"
  by (simp add: tx_merged_def tx_ex_def e1_ex_def e1_merged_def)

lemma store_ex:
  "stm_wbetl_write (Suc (Suc (Suc 0))) K_ex tx_ex g_ex 0x1008 0xAB00 0xFF00 =
     Some (Return 0x10040 tx_merged g_ex)"
  by (simp add: lock_idx_ex lock128_ex in_w_set_ex entry_idx_ex cells_ex fields_ex Let_def
      merge_into_entry_def merged_value tx_merged_eq)

lemma merged_facts: "IS_ACTIVE (tx_status tx_merged)" "w_nb_entries tx_merged = 2"
  "entry_idx K_ex tx_merged 0x10040 = Some 1" "w_cells tx_merged ! Suc 0 = e1_merged"
  "w_value e1_merged = 0xAB09"
  by (simp_all add: tx_merged_def tx_ex_def IS_ACTIVE_def TX_ACTIVE_def entry_idx_def K_ex_def
      e1_merged_def)

theorem store_merges_into_existing_entry_witness:
  "LOCK_GET_OWNED (locks g_ex (GET_LOCK 0x1008)) \<noteq> 0 \<and>
   in_w_set K_ex tx_ex (LOCK_GET_ADDR (locks g_ex (GET_LOCK 0x1008))) \<and>
   bucket_entries (Suc (Suc 0)) K_ex tx_ex (LOCK_GET_ADDR (locks g_ex (GET_LOCK 0x1008))) =
     Some [0, 1] \<and>
   w_addr (w_cells tx_ex ! 1) = 0x1008 \<and> w_addr (w_cells tx_ex ! 0) \<noteq> 0x1008 \<and>
   (\<exists>prev. stm_wbetl_write (Suc (Suc (Suc 0))) K_ex tx_ex g_ex 0x1008 0xAB00 0xFF00 =
      Some (Return prev tx_merged g_ex) \<and> entry_idx K_ex tx_ex prev = Some 1) \<and>
   w_cells tx_merged ! 1 = e1_ex\<lparr>w_value := 0xAB09, w_mask := 0xFFFF\<rparr> \<and>
   w_nb_entries tx_merged = w_nb_entries tx_ex"
proof -
  have o: "LOCK_GET_OWNED (locks g_ex (GET_LOCK 0x1008)) \<noteq> 0"
    and i: "in_w_set K_ex tx_ex (LOCK_GET_ADDR (locks g_ex (GET_LOCK 0x1008)))"
    and b: "bucket_entries (Suc (Suc 0)) K_ex tx_ex
        (LOCK_GET_ADDR (locks g_ex (GET_LOCK 0x1008))) = Some [0, 1]"
    by (simp_all only: lock_idx_ex lock128_ex in_w_set_ex bucket_entries_ex not_False_eq_True)
  have a: "w_addr (w_cells tx_ex ! 1) = 0x1008" "w_addr (w_cells tx_ex ! 0) \<noteq> 0x1008"
    by (simp_all add: cells_ex fields_ex)
  then have e: "\<exists>i \<in> set [0, 1]. w_addr (w_cells tx_ex ! i) = 0x1008"
    by simp
  have "\<exists>prev j tx'.
      stm_wbetl_write (Suc (Suc (Suc 0))) K_ex tx_ex g_ex 0x1008 0xAB00 0xFF00 =
        Some (Return prev tx' g_ex) \<and>
      entry_idx K_ex tx_ex prev = Some j \<and> j \<in> set [0, 1] \<and>
      w_addr (w_cells tx_ex ! j) = 0x1008 \<and>
      tx' = tx_ex\<lparr>w_cells := (w_cells tx_ex)[j := (w_cells tx_ex ! j)
        \<lparr>w_value := ((if w_mask (w_cells tx_ex ! j) = 0 then memory g_ex 0x1008
                       else w_value (w_cells tx_ex ! j)) AND NOT 0xFF00) OR (0xAB00 AND 0xFF00),
         w_mask := w_mask (w_cells tx_ex ! j) OR 0xFF00\<rparr>]\<rparr> \<and>
      w_nb_entries tx' = w_nb_entries tx_ex"
    by (rule store_merges_into_existing_entry [OF o i merged_value(3) b e])
  then obtain prev j tx' where
    w: "stm_wbetl_write (Suc (Suc (Suc 0))) K_ex tx_ex g_ex 0x1008 0xAB00 0xFF00 =
        Some (Return prev tx' g_ex)"
    and j: "entry_idx K_ex tx_ex prev = Some j" "j \<in> set [0, 1]"
      "w_addr (w_cells tx_ex ! j) = 0x1008"
    and t: "tx' = tx_ex\<lparr>w_cells := (w_cells tx_ex)[j := (w_cells tx_ex ! j)
        \<lparr>w_value := ((if w_mask (w_cells tx_ex ! j) = 0 then memory g_ex 0x1008
                       else w_value (w_cells tx_ex ! j)) AND NOT 0xFF00) OR (0xAB00 AND 0xFF00),
         w_mask := w_mask (w_cells tx_ex ! j) OR 0xFF00\<rparr>]\<rparr>"
    and n: "w_nb_entries tx' = w_nb_entries tx_ex"
    by blast
  from j(2,3) a(2) have j1: "j = 1"
    by auto
  from t have "tx' = tx_merged"
    unfolding j1 by (simp add: cells_ex fields_ex merged_value tx_merged_eq)
  with w j(1) n j1 have "(\<exists>prev. stm_wbetl_write (Suc (Suc (Suc 0))) K_ex tx_ex g_ex 0x1008 0xAB00 0xFF00 =
      Some (Return prev tx_merged g_ex) \<and> entry_idx K_ex tx_ex prev = Some 1) \<and>
      w_nb_entries tx_merged = w_nb_entries tx_ex"
    by auto
  moreover have "w_cells tx_merged ! 1 = e1_ex\<lparr>w_value := 0xAB09, w_mask := 0xFFFF\<rparr>"
    by (simp add: tx_merged_def e1_merged_def e1_ex_def)
  ultimately show ?thesis
    using o i b a by simp
qed



lemmas lock_defs_ex = GET_LOCK_def LOCK_IDX_def LOCK_SHIFT_def LOCK_SHIFT_EXTRA_def LOCK_MASK_def
  LOCK_ARRAY_LOG_SIZE_def LOCK_GET_OWNED_def LOCK_GET_ADDR_def LOCK_GET_WRITE_def
  OWNED_MASK_def WRITE_MASK_def

lemma store2_ex:
  "stm_write (Suc (Suc (Suc 0))) K_ex tx_merged g_ex 0x1010 5 (NOT 0) =
     Some (Return 0x10080 tx_after g_ex)"
  by (simp add: stm_write_def IS_ACTIVE_def TX_ACTIVE_def tx_merged_def tx_ex_def g_ex_def
      K_ex_def e0_ex_def e1_merged_def e1_linked_def e2_ex_def tx_after_def NULL_def
      lock_defs_ex entry_idx_def entry_ptr_def in_w_set_def Let_def do_write_def
      extend_ws_if_full_def)

lemma load0_ex:
  "int_stm_load (Suc (Suc 0)) K_ex tx_after g_ex 0x1000 = Some (Return 7 tx_after g_ex)"
  by (simp add: int_stm_load_def stm_wbetl_read_invisible_def read_pass_def IS_ACTIVE_def
      TX_ACTIVE_def tx_ex_def g_ex_def K_ex_def e0_ex_def tx_after_def NULL_def
      lock_defs_ex entry_idx_def entry_ptr_def in_w_set_def Let_def)

lemma run_ops_ex: "run_ops K_ex ops_ex tx_merged g_ex = Some (tx_after, g_ex)"
  using store2_ex load0_ex by (simp add: ops_ex_def)

theorem load_after_store_returns_written_value_witness:
  "layout_ok K_ex tx_ex \<and> ws_linked K_ex tx_ex \<and> (0xFF00 :: stm_word_t) \<noteq> 0 \<and>
   stm_write (Suc (Suc (Suc 0))) K_ex tx_ex g_ex 0x1008 0xAB00 0xFF00 =
     Some (Return 0x10040 tx_merged g_ex) \<and>
   run_ops K_ex ops_ex tx_merged g_ex = Some (tx_after, g_ex) \<and>
   list_all (leaves_bits 0x1008 0xFF00) ops_ex \<and>
   IS_ACTIVE (tx_status tx_after) \<and> unat (w_nb_entries tx_after) < Suc (Suc (Suc (Suc 0))) \<and>
   int_stm_load (Suc (Suc (Suc (Suc 0)))) K_ex tx_after g_ex 0x1008 =
     Some (Return 0xAB09 tx_after g_ex) \<and>
   0xAB09 AND 0xFF00 = (0xAB00 AND 0xFF00 :: stm_word_t)"
proof -
  have s: "stm_write (Suc (Suc (Suc 0))) K_ex tx_ex g_ex 0x1008 0xAB00 0xFF00 =
      Some (Return 0x10040 tx_merged g_ex)"
    unfolding stm_write_def using active_ex store_ex by simp
  have lb: "list_all (leaves_bits 0x1008 0xFF00) ops_ex"
    by (simp add: ops_ex_def)
  have a: "IS_ACTIVE (tx_status tx_after)"
    by (simp add: tx_after_def tx_ex_def IS_ACTIVE_def TX_ACTIVE_def)
  have f: "unat (w_nb_entries tx_after) < Suc (Suc (Suc (Suc 0)))"
    by (simp add: tx_after_def)
  have c: "entry_idx K_ex tx_after 0x10040 = Some (Suc 0)"
    "w_value (w_cells tx_after ! Suc 0) = 0xAB09"
    by (simp_all add: tx_after_def tx_ex_def entry_idx_def K_ex_def e1_linked_def)
  from load_after_store_returns_written_value
    [OF layout_ex ws_linked_ex merged_value(3) s run_ops_ex lb a f]
  obtain v i where l: "int_stm_load (Suc (Suc (Suc (Suc 0)))) K_ex tx_after g_ex 0x1008 =
      Some (Return v tx_after g_ex)"
    and m: "v AND 0xFF00 = 0xAB00 AND 0xFF00"
    and e: "entry_idx K_ex tx_after 0x10040 = Some i" "v = w_value (w_cells tx_after ! i)"
    by blast
  from e(1) c(1) have "i = Suc 0"
    by simp
  with e(2) c(2) have "v = 0xAB09"
    by simp
  with l m s run_ops_ex lb a f layout_ex ws_linked_ex show ?thesis
    by simp
qed

lemma commit_after_failed_validation_ex:
  "\<exists>tx' g'. int_stm_commit 0 K_ex tx_stale g_ex = Some (Return 1 tx' g') \<and>
     tx_status tx' = TX_COMMITTED \<and> int_stm_aborted tx' = 0 \<and>
     memory g' = memory g_ex \<and> locks g' 128 = 0x30 \<and> CLOCK g' = 4"
proof -
  let ?tx = "tx_stale\<lparr>tx_nesting := tx_nesting tx_stale - 1\<rparr>"
  let ?g = "g_ex\<lparr>CLOCK := CLOCK g_ex + 1\<rparr>"
  have f: "tx_nesting ?tx = 0" "IS_ACTIVE (tx_status ?tx)" "w_nb_entries ?tx \<noteq> 0"
    "tx_irrevocable ?tx = 0" "tx_start ?tx \<noteq> CLOCK g_ex + 1 - 1" "precommit_cb g_ex = []"
    "g_irrevocable g_ex = 0"
    by (simp_all add: tx_stale_def tx_ex_def IS_ACTIVE_def TX_ACTIVE_def g_ex_def)
  have v: "stm_wbetl_validate K_ex ?tx ?g = 0"
    by (simp add: stm_wbetl_validate_def loop_count_def tx_stale_def tx_ex_def g_ex_def
        LOCK_GET_OWNED_def OWNED_MASK_def WRITE_MASK_def ts_ex Let_def)
  have nr: "no_retry (tx_attr ?tx) \<or>
      STM_ABORT_VALIDATE K_ex AND STM_ABORT_NO_RETRY K_ex = STM_ABORT_NO_RETRY K_ex"
    by (simp add: tx_ex_def tx_stale_def)
  have al: "STM_ABORT_VALIDATE K_ex = STM_ABORT_EXTEND_WS K_ex \<longrightarrow>
      xrealloc ?g (w_entries ?tx) (unat (w_size ?tx * 2) * SIZEOF_W_ENTRY K_ex) AND
        OWNED_MASK = 0"
    by (simp add: K_ex_def)
  have ws: "take (loop_count (w_nb_entries tx_stale)) (w_cells tx_stale) = [e0_ex, e1_ex]"
    by (simp add: loop_count_def tx_stale_def tx_ex_def)
  from stm_rollback_no_retry_eq [OF f(2) nr al, of 0]
  have rb: "stm_rollback 0 K_ex ?tx ?g (STM_ABORT_VALIDATE K_ex) =
      Some (Return () (?tx\<lparr>tx_status := TX_ABORTED, tx_nesting := 0\<rparr>)
        (?g\<lparr>locks := released_locks [e0_ex, e1_ex] (locks g_ex),
            trace := release_events [e0_ex, e1_ex]\<rparr>))"
    by (simp add: run_callbacks_eq drop_locks_loop_eq abort_descriptor_def ws K_ex_def)
      (simp add: g_ex_def)
  have "stm_wbetl_commit 0 K_ex ?tx g_ex =
      Some (Return 0 (?tx\<lparr>tx_status := TX_ABORTED, tx_nesting := 0\<rparr>)
        (?g\<lparr>locks := released_locks [e0_ex, e1_ex] (locks g_ex),
            trace := release_events [e0_ex, e1_ex]\<rparr>))"
    unfolding stm_wbetl_commit_def using f(4,5,7) v rb by (simp add: Let_def)
  with f(1,2,3,6) show ?thesis
    unfolding int_stm_commit_def
    by (simp add: Let_def run_callbacks_eq int_stm_aborted_def TX_COMMITTED_def TX_ABORTED_def)
      (simp add: g_ex_def released_locks_def e0_ex_def e1_ex_def NULL_def ts_ex)
qed

end
